theory Spec2Isabelle
  imports Main "HOL-Library.Word"
begin

section \<open>Constants of the controller\<close>

text \<open>From \<open>generator.h\<close>, \<open>generator_hw.h\<close>, \<open>Wifi_names.h\<close> and the head of
  \<open>genwifiserver.cpp\<close>.\<close>

definition MAXLINE :: nat where
  "MAXLINE = 500"

definition MAX_IP_ADDRESSES :: nat where
  "MAX_IP_ADDRESSES = 25"

definition NUM_BUTTONS :: int where
  "NUM_BUTTONS = 7"

definition INT_MAX :: "32 word" where
  "INT_MAX = 0x7FFFFFFF"

definition NUL :: char where
  "NUL = CHR 0x00"

definition DOWNARROW :: char where
  "DOWNARROW = CHR 0x01"

definition UPARROW :: char where
  "UPARROW = CHR 0x02"

definition RIGHTARROW :: char where
  "RIGHTARROW = CHR 0x7E"

definition LEFTARROW :: char where
  "LEFTARROW = CHR 0x7F"

section \<open>Faults\<close>

text \<open>What C leaves undefined is a value of the model: a write outside an array, and the
  controller's own \<open>assert\<close> when its test is false.\<close>

datatype fault = Out_Of_Bounds | Assertion_Failed

section \<open>Text expansion for the status page\<close>

text \<open>\<open>strcpy(dst, s)\<close> into the static buffer \<open>outmsg\<close>: the bytes of \<open>s\<close> and the
  terminating NUL are stored from offset \<open>dst\<close> on.\<close>

definition strcpy_at :: "char list \<Rightarrow> nat \<Rightarrow> string \<Rightarrow> fault + char list" where
  "strcpy_at buf dst s =
     (if dst + length s + 1 \<le> length buf
      then Inr (take dst buf @ s @ [NUL] @ drop (dst + length s + 1) buf)
      else Inl Out_Of_Bounds)"

text \<open>\<open>*dst = c\<close>.\<close>

definition poke :: "char list \<Rightarrow> nat \<Rightarrow> char \<Rightarrow> fault + char list" where
  "poke buf dst c = (if dst < length buf then Inr (buf[dst := c]) else Inl Out_Of_Bounds)"

text \<open>The \<open>for\<close> loop of \<open>expand_arrows_and_blanks\<close>. The source string ends at its first
  NUL (or where the list ends); \<open>dst\<close> is the offset of the write pointer in \<open>outmsg\<close>.
  After each \<open>strcpy\<close> the pointer advances by 6 (arrows) or 5 (blank), as the code has it.\<close>

fun expand_loop :: "string \<Rightarrow> char list \<Rightarrow> nat \<Rightarrow> fault + (char list \<times> nat)" where
  "expand_loop [] outmsg dst = Inr (outmsg, dst)"
| "expand_loop (c # src) outmsg dst =
     (if c = NUL then Inr (outmsg, dst)
      else if c = LEFTARROW then
        (case strcpy_at outmsg dst ''&#8592;'' of
           Inl f \<Rightarrow> Inl f | Inr b \<Rightarrow> expand_loop src b (dst + 6))
      else if c = UPARROW then
        (case strcpy_at outmsg dst ''&#8593;'' of
           Inl f \<Rightarrow> Inl f | Inr b \<Rightarrow> expand_loop src b (dst + 6))
      else if c = RIGHTARROW then
        (case strcpy_at outmsg dst ''&#8594;'' of
           Inl f \<Rightarrow> Inl f | Inr b \<Rightarrow> expand_loop src b (dst + 6))
      else if c = DOWNARROW then
        (case strcpy_at outmsg dst ''&#8595;'' of
           Inl f \<Rightarrow> Inl f | Inr b \<Rightarrow> expand_loop src b (dst + 6))
      else if c = CHR '' '' then
        (case strcpy_at outmsg dst ''&nbsp;'' of
           Inl f \<Rightarrow> Inl f | Inr b \<Rightarrow> expand_loop src b (dst + 5))
      else
        (case poke outmsg dst c of
           Inl f \<Rightarrow> Inl f | Inr b \<Rightarrow> expand_loop src b (dst + 1)))"

text \<open>The C string that starts at the head of a buffer.\<close>

definition c_string :: "char list \<Rightarrow> string" where
  "c_string buf = takeWhile (\<lambda>c. c \<noteq> NUL) buf"

text \<open>\<open>expand_arrows_and_blanks(msg)\<close>: \<open>outmsg0\<close> is what the static buffer held before the
  call; the result is the string the returned pointer designates.\<close>

definition expand_arrows_and_blanks :: "char list \<Rightarrow> string \<Rightarrow> fault + string" where
  "expand_arrows_and_blanks outmsg0 msg =
     (case expand_loop msg outmsg0 0 of
        Inl f \<Rightarrow> Inl f
      | Inr (outmsg, dst) \<Rightarrow>
          (case poke outmsg dst NUL of
             Inl f \<Rightarrow> Inl f
           | Inr b \<Rightarrow> Inr (c_string b)))"

text \<open>What the loop leaves in the output for one source character, and for a source
  string: each entity is there without its semicolon.\<close>

definition written_for :: "char \<Rightarrow> string" where
  "written_for c =
     (if c = LEFTARROW then ''&#8592''
      else if c = UPARROW then ''&#8593''
      else if c = RIGHTARROW then ''&#8594''
      else if c = DOWNARROW then ''&#8595''
      else if c = CHR '' '' then ''&nbsp''
      else [c])"

fun expanded :: "string \<Rightarrow> string" where
  "expanded [] = []"
| "expanded (c # cs) = (if c = NUL then [] else written_for c @ expanded cs)"

text \<open>Substring test, for statements about what a rendered string contains.\<close>

fun contains :: "string \<Rightarrow> string \<Rightarrow> bool" where
  "contains [] pat = (pat = [])"
| "contains (c # cs) pat = (take (length pat) (c # cs) = pat \<or> contains cs pat)"

section \<open>Visitor table\<close>

text \<open>An \<open>IPAddress\<close> is an IPv4 address; \<open>count\<close> is a C \<open>long\<close> (32 bits on the
  controller's processor, read as signed by \<open>sint\<close> and compared by \<open><s\<close>).\<close>

type_synonym ipaddr = "32 word"

record client_t =
  ip_address :: ipaddr
  count :: "32 word"
  gave_password :: bool

text \<open>Outcome of the scan loop of \<open>add_IP_address\<close>: either the early \<open>return\<close> with the
  index of the matching slot, or the loop's final \<open>empty_ndx\<close> and \<open>min_ndx\<close>.\<close>

datatype scan_result = Found nat | Scanned int int

fun scan_clients ::
  "ipaddr \<Rightarrow> client_t list \<Rightarrow> nat \<Rightarrow> int \<Rightarrow> int \<Rightarrow> 32 word \<Rightarrow> scan_result" where
  "scan_clients addr [] ndx empty_ndx min_ndx min_count = Scanned empty_ndx min_ndx"
| "scan_clients addr (c # cs) ndx empty_ndx min_ndx min_count =
     (if ip_address c = addr then Found ndx
      else if count c = 0 then scan_clients addr cs (Suc ndx) (int ndx) min_ndx min_count
      else if count c <s min_count then scan_clients addr cs (Suc ndx) empty_ndx (int ndx) (count c)
      else scan_clients addr cs (Suc ndx) empty_ndx min_ndx min_count)"

text \<open>\<open>add_IP_address\<close>: the table is the array \<open>clients[MAX_IP_ADDRESSES]\<close>; the result is
  the index of the slot the returned pointer designates, and the table after the call.
  A store through \<open>clients[min_ndx]\<close> with \<open>min_ndx\<close> outside the array is a fault.\<close>

definition add_IP_address :: "ipaddr \<Rightarrow> client_t list \<Rightarrow> fault + (nat \<times> client_t list)" where
  "add_IP_address addr clients =
     (case scan_clients addr (take MAX_IP_ADDRESSES clients) 0 (- 1) (- 1) INT_MAX of
        Found ndx \<Rightarrow> Inr (ndx, clients)
      | Scanned empty_ndx min_ndx0 \<Rightarrow>
          (let min_ndx = (if empty_ndx \<ge> 0 then empty_ndx else min_ndx0)
           in if 0 \<le> min_ndx \<and> min_ndx < int (length clients)
              then Inr (nat min_ndx,
                        clients[nat min_ndx :=
                          \<lparr>ip_address = addr, count = 1, gave_password = False\<rparr>])
              else Inl Out_Of_Bounds))"

text \<open>The slots the specification speaks of: the empty slot the scan settles on (the last one with
  \<open>count = 0\<close>), and the slot of minimum count, the lowest index among equals.\<close>

definition last_empty_slot :: "client_t list \<Rightarrow> nat \<Rightarrow> bool" where
  "last_empty_slot tab j =
     (j < length tab \<and> count (tab ! j) = 0 \<and> list_all (\<lambda>c. count c \<noteq> 0) (drop (Suc j) tab))"

definition min_count_slot :: "client_t list \<Rightarrow> nat \<Rightarrow> bool" where
  "min_count_slot tab j =
     (j < length tab \<and>
      list_all (\<lambda>c. count (tab ! j) <s count c) (take j tab) \<and>
      list_all (\<lambda>c. count (tab ! j) \<le>s count c) (drop (Suc j) tab))"

definition occupied :: "client_t list \<Rightarrow> client_t list" where
  "occupied tab = filter (\<lambda>c. count c \<noteq> 0) tab"

section \<open>Event log walk of the log page\<close>

text \<open>The header of the log (\<open>unsigned short\<close> fields); \<open>log_max_entries\<close> is an \<open>extern int\<close>
  of the main module and is a parameter here.\<close>

record logfile_hdr_t =
  num_entries :: "16 word"
  newest :: "16 word"
  oldest :: "16 word"

text \<open>The \<open>for (int ndx = logfile_hdr.newest; ;)\<close> loop of the \<open>RSP_LOG\<close> branch of
  \<open>generate_response\<close>. Each round prints \<open>logfile[ndx]\<close>: the model collects the indices
  printed, in order. A read outside \<open>logfile[0 .. log_max_entries-1]\<close> is a fault; a walk
  that never meets \<open>oldest\<close> does not return (\<open>None\<close>).\<close>

partial_function (option) log_walk ::
  "int \<Rightarrow> int \<Rightarrow> int \<Rightarrow> int list \<Rightarrow> (fault + int list) option" where
  "log_walk log_max_entries oldest_ndx ndx printed =
     (if ndx < 0 \<or> log_max_entries \<le> ndx then Some (Inl Out_Of_Bounds)
      else if ndx = oldest_ndx then Some (Inr (printed @ [ndx]))
      else log_walk log_max_entries oldest_ndx
             (if ndx - 1 < 0 then log_max_entries - 1 else ndx - 1) (printed @ [ndx]))"

declare log_walk.simps [code]

definition log_rows :: "int \<Rightarrow> logfile_hdr_t \<Rightarrow> (fault + int list) option" where
  "log_rows log_max_entries hdr =
     (if num_entries hdr > 0
      then log_walk log_max_entries (uint (oldest hdr)) (uint (newest hdr)) []
      else Some (Inr []))"

text \<open>The ring invariant of the log with \<open>k\<close> entries in a ring of \<open>cap\<close> slots: the entries
  lie from \<open>oldest\<close> upward to \<open>newest\<close>, wrapping at \<open>cap\<close>.\<close>

definition ring_inv :: "nat \<Rightarrow> logfile_hdr_t \<Rightarrow> nat \<Rightarrow> bool" where
  "ring_inv cap hdr k =
     (k \<le> cap \<and> unat (num_entries hdr) = k \<and> unat (oldest hdr) < cap \<and>
      (0 < k \<longrightarrow> unat (newest hdr) = (unat (oldest hdr) + k - 1) mod cap))"

section \<open>Reading request lines\<close>

text \<open>The input side of a \<open>WiFiClient\<close> is the list of bytes that arrive on the connection.
  \<open>readBytesUntil(terminator, buffer, length)\<close> of the Arduino stream class stores bytes
  until it has read the terminator (consumed, not stored), has stored \<open>length\<close> bytes, or no
  further byte arrives; it returns the bytes stored and leaves the rest unread.\<close>

fun readBytesUntil :: "char \<Rightarrow> nat \<Rightarrow> char list \<Rightarrow> char list \<times> char list" where
  "readBytesUntil terminator 0 inp = ([], inp)"
| "readBytesUntil terminator (Suc n) [] = ([], [])"
| "readBytesUntil terminator (Suc n) (c # cs) =
     (if c = terminator then ([], cs)
      else (case readBytesUntil terminator n cs of (bytes, rest) \<Rightarrow> (c # bytes, rest)))"

text \<open>\<open>get_request_line\<close>: the result of the call (\<open>nbytes > 1\<close>), the C string left in
  \<open>linebuf\<close> after \<open>ptr[nbytes] = 0\<close>, and the unread input.\<close>

definition get_request_line :: "char list \<Rightarrow> bool \<times> string \<times> char list" where
  "get_request_line inp =
     (case readBytesUntil (CHR 0x0A) (MAXLINE - 1) inp of
        (bytes, rest) \<Rightarrow> (1 < length bytes, c_string bytes, rest))"

text \<open>\<open>while (get_request_line(pclient, linebuf)) body\<close>: the loop state is threaded through
  \<open>body\<close>, once for each line read; the result also gives the input left unread.\<close>

function lines_loop :: "(string \<Rightarrow> 'a \<Rightarrow> 'a) \<Rightarrow> char list \<Rightarrow> 'a \<Rightarrow> 'a \<times> char list" where
  "lines_loop body inp acc =
     (case get_request_line inp of
        (ok, linebuf, rest) \<Rightarrow>
          if ok then lines_loop body rest (body linebuf acc) else (acc, rest))"
  by pat_completeness auto
termination
proof (relation "measure (\<lambda>(body, inp, acc). length inp)")
  show "wf (measure (\<lambda>(body, inp, acc). length inp))" by simp
next
  fix body :: "string \<Rightarrow> 'a \<Rightarrow> 'a" and inp acc x1 x2 x1a x2a
  assume a: "(x1, x2) = get_request_line inp" "(x1a, x2a) = x2" "x1"
  have len: "length (fst (readBytesUntil t n i)) + length (snd (readBytesUntil t n i)) \<le> length i"
    for t n i
    by (induction t n i rule: readBytesUntil.induct) (auto split: prod.splits)
  from a obtain bytes where r: "readBytesUntil (CHR 0x0A) (MAXLINE - 1) inp = (bytes, x2a)"
    and l: "1 < length bytes"
    by (auto simp: get_request_line_def split: prod.splits)
  from len [of "CHR 0x0A" "MAXLINE - 1" inp] r l have "length x2a < length inp" by simp
  then show "((body, x2a, body x1a acc), body, inp, acc) \<in> measure (\<lambda>(body, inp, acc). length inp)"
    by simp
qed

declare lines_loop.simps [simp del]

text \<open>The lines such a loop reads, and the input it leaves.\<close>

function request_lines :: "char list \<Rightarrow> string list" where
  "request_lines inp =
     (case get_request_line inp of
        (ok, linebuf, rest) \<Rightarrow> if ok then linebuf # request_lines rest else [])"
  by pat_completeness auto
termination
proof (relation "measure length")
  show "wf (measure length)" by simp
next
  fix inp x1 x2 x1a x2a
  assume a: "(x1, x2) = get_request_line inp" "(x1a, x2a) = x2" "x1"
  have len: "length (fst (readBytesUntil t n i)) + length (snd (readBytesUntil t n i)) \<le> length i"
    for t n i
    by (induction t n i rule: readBytesUntil.induct) (auto split: prod.splits)
  from a obtain bytes where r: "readBytesUntil (CHR 0x0A) (MAXLINE - 1) inp = (bytes, x2a)"
    and l: "1 < length bytes"
    by (auto simp: get_request_line_def split: prod.splits)
  from len [of "CHR 0x0A" "MAXLINE - 1" inp] r l have "length x2a < length inp" by simp
  then show "(x2a, inp) \<in> measure length" by simp
qed

declare request_lines.simps [simp del]

section \<open>Scanners of the main module\<close>

text \<open>\<open>scan_key\<close> and \<open>scan_int\<close> are declared in \<open>generator.h\<close> and defined in the main
  module. The request processing below takes them as parameters: \<open>scan_key p ptr keyword\<close>
  gives the result of the call and the pointer it leaves in \<open>*pptr\<close>; \<open>scan_int p ptr lo hi\<close>
  gives the number stored through \<open>pnum\<close> when the call returns true. The signedness of
  \<open>time_t\<close> depends on the C library (\<open>generator.h\<close> notes that it may be either) and is
  a parameter too.\<close>

record platform =
  scan_key :: "string \<Rightarrow> string \<Rightarrow> bool \<times> string"
  scan_int :: "string \<Rightarrow> int \<Rightarrow> int \<Rightarrow> int option"
  time_t_signed :: bool

definition time_le :: "platform \<Rightarrow> 32 word \<Rightarrow> 32 word \<Rightarrow> bool" where
  "time_le p a b = (if time_t_signed p then a \<le>s b else a \<le> b)"

definition time_less :: "platform \<Rightarrow> 32 word \<Rightarrow> 32 word \<Rightarrow> bool" where
  "time_less p a b = (if time_t_signed p then a <s b else a < b)"

text \<open>Modelled from the spec: the bodies of \<open>skip_blanks\<close>, \<open>scan_key\<close> and \<open>scan_int\<close>, which
  are missing from the sources at hand. The spec describes the matching as literal,
  case-sensitive prefix matching of method and path, and the body fields as \<open>button=<int>\<close>
  and \<open>pwd=<string>\<close>. Blanks before a keyword are skipped, so that the path keyword matches
  after the method. These instances serve the closed examples only; every general theorem
  below holds for any \<open>platform\<close>.\<close>

definition skip_blanks :: "string \<Rightarrow> string" where
  "skip_blanks ptr = dropWhile (\<lambda>c. c = CHR '' '') ptr"

definition scan_key_literal :: "string \<Rightarrow> string \<Rightarrow> bool \<times> string" where
  "scan_key_literal ptr keyword =
     (let q = skip_blanks ptr
      in if take (length keyword) q = keyword then (True, drop (length keyword) q)
         else (False, ptr))"

definition digit_val :: "char \<Rightarrow> int option" where
  "digit_val c =
     (let n = (of_char c :: nat)
      in if 48 \<le> n \<and> n \<le> 57 then Some (int n - 48) else None)"

fun scan_digits :: "string \<Rightarrow> int \<Rightarrow> int" where
  "scan_digits [] n = n"
| "scan_digits (c # cs) n =
     (case digit_val c of None \<Rightarrow> n | Some d \<Rightarrow> scan_digits cs (10 * n + d))"

definition scan_int_decimal :: "string \<Rightarrow> int \<Rightarrow> int \<Rightarrow> int option" where
  "scan_int_decimal ptr lo hi =
     (case skip_blanks ptr of
        [] \<Rightarrow> None
      | c # cs \<Rightarrow>
          (case digit_val c of
             None \<Rightarrow> None
           | Some d \<Rightarrow>
               (let n = scan_digits cs d in if lo \<le> n \<and> n \<le> hi then Some n else None)))"

definition spec_platform :: platform where
  "spec_platform =
     \<lparr>scan_key = scan_key_literal, scan_int = scan_int_decimal, time_t_signed = False\<rparr>"

section \<open>State of the web module\<close>

definition CONNECT_DELAY_SECS :: "32 word" where
  "CONNECT_DELAY_SECS = 10"

definition MAX_CONNECT_ATTEMPTS :: "32 word" where
  "MAX_CONNECT_ATTEMPTS = 3"

definition DELAYED_RSP_MSEC :: "32 word" where
  "DELAYED_RSP_MSEC = 1000"

definition POWER_ON_WEB_DELAY_SECS :: "32 word" where
  "POWER_ON_WEB_DELAY_SECS = 120"

definition ACTION_PASSWORD :: string where
  "ACTION_PASSWORD = ''password''"

datatype web_status_t =
  WEB_NOT_CONNECTED | WEB_AWAITING_CONNECTION | WEB_AWAITING_CLIENT | WEB_PROCESSING_REQUEST

datatype request_type_t =
  REQ_UNKNOWN | REQ_ROOT | REQ_VISITORS | REQ_LOG | REQ_PUSHBUTTON | REQ_SETPASS
  | REQ_FAVICON | REQ_BUTTONIMAGE

datatype response_type_t =
  RSP_UNKNOWN | RSP_STATUS | RSP_VISITORS | RSP_LOG | RSP_FAVICON | RSP_BUTTONIMAGE
  | RSP_ASKPASS | RSP_NONE

text \<open>The return codes of \<open>WiFi.status()\<close>, as listed at the head of the source file.\<close>

datatype wl_status_t =
  WL_NO_SHIELD | WL_IDLE_STATUS | WL_NO_SSID_AVAIL | WL_SCAN_COMPLETED | WL_CONNECTED
  | WL_CONNECT_FAILED | WL_CONNECTION_LOST | WL_DISCONNECTED | WL_AP_LISTENING
  | WL_AP_CONNECTED | WL_AP_FAILED

text \<open>The variables of the module, with the statics of \<open>process_web\<close> and the two variables
  it shares with the main module (\<open>button_webpushed\<close>, \<open>ifttt_do_trigger\<close>).
  \<open>current_client\<close> points into \<open>clients\<close> and is kept as an index.\<close>

record web_state =
  web_status :: web_status_t
  delayed_response :: bool
  delayed_sendtime :: "32 word"
  next_connect_time :: "32 word"
  clients :: "client_t list"
  current_client :: nat
  requests_processed :: "32 word"
  wifi_connects :: "32 word"
  wifi_connectfails :: "32 word"
  wifi_disconnects :: "32 word"
  wifi_resets :: "32 word"
  processing_web :: bool
  connect_attempts :: "32 word"
  button_webpushed :: "bool list"
  ifttt_do_trigger :: bool

text \<open>What one call of \<open>process_web\<close> reads from outside the module: the power inputs after
  \<open>update_bools()\<close>, the clocks (\<open>now0\<close> is the reading of \<open>now()\<close> in the entry test,
  \<open>now\<close> the reading inside the \<open>switch\<close>), \<open>WiFi.status()\<close>, and the client that
  \<open>server.available()\<close> would hand over: its remote address and the bytes it sends.\<close>

record env =
  util_on :: bool
  util_connected :: bool
  gen_on :: bool
  gen_connected :: bool
  last_poweron_time :: "32 word"
  now0 :: "32 word"
  now :: "32 word"
  millis :: "32 word"
  wifi_status :: wl_status_t
  client :: "(ipaddr \<times> char list) option"

text \<open>What a call does to the outside: calls into the WiFi library, the response written
  to the client, the trigger sent to the notification service. The LCD and LED calls are
  left out.\<close>

datatype action =
  Wifi_Begin | Server_Begin | Wifi_Reset | Response response_type_t | Ifttt_Trigger

text \<open>The state at start-up, from the initialisers of the module's variables; the
  buttons of the main module start unpushed.\<close>

definition initial_state :: web_state where
  "initial_state =
     \<lparr>web_status = WEB_NOT_CONNECTED, delayed_response = False, delayed_sendtime = 0,
      next_connect_time = 0,
      clients = replicate MAX_IP_ADDRESSES \<lparr>ip_address = 0, count = 0, gave_password = False\<rparr>,
      current_client = 0, requests_processed = 0, wifi_connects = 0, wifi_connectfails = 0,
      wifi_disconnects = 0, wifi_resets = 0, processing_web = False, connect_attempts = 0,
      button_webpushed = replicate (nat NUM_BUTTONS) False, ifttt_do_trigger = False\<rparr>"

section \<open>Processing a client request\<close>

definition queue_button_push :: "int \<Rightarrow> 32 word \<Rightarrow> web_state \<Rightarrow> fault + web_state" where
  "queue_button_push button millis_now s =
     (if 0 \<le> button \<and> button < int (length (button_webpushed s))
      then Inr (s\<lparr>button_webpushed := (button_webpushed s)[nat button := True],
                  delayed_response := True,
                  delayed_sendtime := millis_now + DELAYED_RSP_MSEC\<rparr>)
      else Inl Out_Of_Bounds)"

definition check_password :: "string \<Rightarrow> bool" where
  "check_password ptr = (c_string ptr = ACTION_PASSWORD)"

text \<open>\<open>generate_response\<close>: the page is written to the client, the connection is closed
  and the machine returns to \<open>WEB_AWAITING_CLIENT\<close>.\<close>

definition generate_response :: "response_type_t \<Rightarrow> web_state \<Rightarrow> action list \<times> web_state" where
  "generate_response response_type s =
     ([Response response_type], s\<lparr>web_status := WEB_AWAITING_CLIENT\<rparr>)"

text \<open>The body of the header loop: one request line, matched against the routes.\<close>

definition classify_line :: "platform \<Rightarrow> string \<Rightarrow> request_type_t \<Rightarrow> request_type_t" where
  "classify_line p linebuf request_type =
     (let (is_get, ptr) = scan_key p linebuf ''GET'' in
      if is_get then
        (let (k1, ptr) = scan_key p ptr ''/ '' in
         if k1 then REQ_ROOT else
         let (k2, ptr) = scan_key p ptr ''/VISITORS '' in
         if k2 then REQ_VISITORS else
         let (k3, ptr) = scan_key p ptr ''/LOG '' in
         if k3 then REQ_LOG else
         let (k4, ptr) = scan_key p ptr ''/FAVICON.ICO '' in
         if k4 then REQ_FAVICON else
         let (k5, ptr) = scan_key p ptr ''/BUTTONIMAGE.JPG '' in
         if k5 then REQ_BUTTONIMAGE else request_type)
      else
        (let (is_post, ptr) = scan_key p ptr ''POST'' in
         if is_post then
           (let (k6, ptr) = scan_key p ptr ''/PUSHBUTTON.HTML'' in
            if k6 then REQ_PUSHBUTTON else
            let (k7, ptr) = scan_key p ptr ''/SETPASS.HTML'' in
            if k7 then REQ_SETPASS else request_type)
         else request_type))"

text \<open>The test \<open>scan_key(&ptr, "BUTTON=") && scan_int(&ptr, &button, 0, NUM_BUTTONS - 1)\<close>
  on a body line, with the button number it leaves when it holds.\<close>

definition scan_button :: "platform \<Rightarrow> string \<Rightarrow> int option" where
  "scan_button p linebuf =
     (let (is_button, ptr) = scan_key p linebuf ''BUTTON='' in
      if is_button then scan_int p ptr 0 (NUM_BUTTONS - 1) else None)"

text \<open>The body of the loop over the lines of a pushbutton post. The loop state is the
  response type and the module state; a fault ends the processing.\<close>

definition pushbutton_line ::
  "platform \<Rightarrow> 32 word \<Rightarrow> string \<Rightarrow> fault + (response_type_t \<times> web_state)
     \<Rightarrow> fault + (response_type_t \<times> web_state)" where
  "pushbutton_line p millis_now linebuf acc =
     (case acc of
        Inl f \<Rightarrow> Inl f
      | Inr (response_type, s) \<Rightarrow>
          (case scan_button p linebuf of
             None \<Rightarrow> Inr (response_type, s)
           | Some button \<Rightarrow>
               if gave_password (clients s ! current_client s) then
                 (case queue_button_push button millis_now s of
                    Inl f \<Rightarrow> Inl f
                  | Inr s' \<Rightarrow> Inr (RSP_NONE, s'))
               else Inr (RSP_ASKPASS, s)))"

text \<open>The test \<open>scan_key(&ptr, "PWD=") && check_password(ptr)\<close> on a body line.\<close>

definition scan_password :: "platform \<Rightarrow> string \<Rightarrow> bool" where
  "scan_password p linebuf =
     (let (is_pwd, ptr) = scan_key p linebuf ''PWD='' in is_pwd \<and> check_password ptr)"

text \<open>The body of the loop over the lines of a password post.\<close>

definition setpass_line ::
  "platform \<Rightarrow> string \<Rightarrow> response_type_t \<times> web_state \<Rightarrow> response_type_t \<times> web_state" where
  "setpass_line p linebuf acc =
     (case acc of
        (response_type, s) \<Rightarrow>
          if scan_password p linebuf then
            (RSP_STATUS,
             s\<lparr>clients := (clients s)[current_client s :=
                  (clients s ! current_client s)\<lparr>gave_password := True\<rparr>]\<rparr>)
          else (RSP_ASKPASS, s))"

text \<open>The request type the header loop arrives at, and the input it leaves unread.\<close>

definition read_request :: "platform \<Rightarrow> char list \<Rightarrow> request_type_t \<times> char list" where
  "read_request p inp = lines_loop (classify_line p) inp REQ_UNKNOWN"

text \<open>The choice of the response, after the header has been read: \<open>inp\<close> is the unread input
  (the body of a post), and \<open>pclient->available()\<close> is its length.\<close>

definition choose_response ::
  "platform \<Rightarrow> 32 word \<Rightarrow> request_type_t \<Rightarrow> char list \<Rightarrow> web_state
     \<Rightarrow> fault + (response_type_t \<times> web_state)" where
  "choose_response p millis_now request_type inp s =
     (if request_type = REQ_ROOT then Inr (RSP_STATUS, s)
      else if request_type = REQ_BUTTONIMAGE then Inr (RSP_BUTTONIMAGE, s)
      else if request_type = REQ_LOG then Inr (RSP_LOG, s)
      else if request_type = REQ_VISITORS then Inr (RSP_VISITORS, s)
      else if request_type = REQ_FAVICON then Inr (RSP_FAVICON, s)
      else if request_type = REQ_PUSHBUTTON then
        (if 2 < length inp
         then fst (lines_loop (pushbutton_line p millis_now) inp (Inr (RSP_UNKNOWN, s)))
         else Inr (RSP_UNKNOWN, s))
      else if request_type = REQ_SETPASS then
        Inr (fst (lines_loop (setpass_line p) inp (RSP_UNKNOWN, s)))
      else Inr (RSP_UNKNOWN, s))"

text \<open>The visit counters: \<open>++current_client->count; ++requests_processed\<close> unless the
  request is for the favicon.\<close>

definition count_request :: "request_type_t \<Rightarrow> web_state \<Rightarrow> web_state" where
  "count_request request_type s =
     (if request_type \<noteq> REQ_FAVICON
      then s\<lparr>clients := (clients s)[current_client s :=
                 (clients s ! current_client s)
                   \<lparr>count := count (clients s ! current_client s) + 1\<rparr>],
             requests_processed := requests_processed s + 1\<rparr>
      else s)"

definition process_client_request ::
  "platform \<Rightarrow> 32 word \<Rightarrow> ipaddr \<times> char list \<Rightarrow> web_state
     \<Rightarrow> fault + (action list \<times> web_state)" where
  "process_client_request p millis_now pclient s =
     (case add_IP_address (fst pclient) (clients s) of
        Inl f \<Rightarrow> Inl f
      | Inr (ndx, tab) \<Rightarrow>
          (let s1 = s\<lparr>clients := tab, current_client := ndx\<rparr>;
               (request_type, body) = read_request p (snd pclient);
               s2 = count_request request_type s1
           in case choose_response p millis_now request_type body s2 of
                Inl f \<Rightarrow> Inl f
              | Inr (response_type, s3) \<Rightarrow>
                  if response_type \<noteq> RSP_NONE then Inr (generate_response response_type s3)
                  else Inr ([], s3)))"

section \<open>The connectivity state machine\<close>

definition HAVE_POWER :: "env \<Rightarrow> bool" where
  "HAVE_POWER e = ((util_on e \<and> util_connected e) \<or> (gen_on e \<and> gen_connected e))"

text \<open>The entry test of \<open>process_web\<close>.\<close>

definition web_enabled :: "platform \<Rightarrow> env \<Rightarrow> web_state \<Rightarrow> bool" where
  "web_enabled p e s =
     (HAVE_POWER e \<and> \<not> processing_web s \<and>
      time_less p POWER_ON_WEB_DELAY_SECS (now0 e - last_poweron_time e))"

text \<open>\<open>case WEB_NOT_CONNECTED\<close>.\<close>

definition not_connected_step :: "platform \<Rightarrow> env \<Rightarrow> web_state \<Rightarrow> action list \<times> web_state" where
  "not_connected_step p e s =
     (if time_le p (next_connect_time s) (now e)
      then ([Wifi_Begin],
            s\<lparr>connect_attempts := connect_attempts s + 1,
              web_status := WEB_AWAITING_CONNECTION\<rparr>)
      else ([], s))"

text \<open>\<open>case WEB_AWAITING_CONNECTION\<close>. \<open>wifi_reset()\<close> belongs to the main module; it
  appears as the action \<open>Wifi_Reset\<close>.\<close>

definition connect_failed :: "env \<Rightarrow> web_state \<Rightarrow> action list \<times> web_state" where
  "connect_failed e s =
     (let s1 = s\<lparr>wifi_connectfails := wifi_connectfails s + 1\<rparr>;
          (acts, s2) =
            (if MAX_CONNECT_ATTEMPTS \<le>s connect_attempts s1
             then ([Wifi_Reset], s1\<lparr>wifi_resets := wifi_resets s1 + 1, connect_attempts := 0\<rparr>)
             else ([], s1))
      in (acts, s2\<lparr>next_connect_time := now e + CONNECT_DELAY_SECS,
                   web_status := WEB_NOT_CONNECTED\<rparr>))"

definition awaiting_connection_step :: "env \<Rightarrow> web_state \<Rightarrow> action list \<times> web_state" where
  "awaiting_connection_step e s =
     (case wifi_status e of
        WL_CONNECTED \<Rightarrow>
          ([Server_Begin],
           s\<lparr>wifi_connects := wifi_connects s + 1, connect_attempts := 0,
             web_status := WEB_AWAITING_CLIENT\<rparr>)
      | WL_IDLE_STATUS \<Rightarrow> ([], s)
      | _ \<Rightarrow> connect_failed e s)"

text \<open>\<open>case WEB_AWAITING_CLIENT\<close>.\<close>

definition awaiting_client_step ::
  "platform \<Rightarrow> env \<Rightarrow> web_state \<Rightarrow> fault + (action list \<times> web_state)" where
  "awaiting_client_step p e s =
     (if wifi_status e \<noteq> WL_CONNECTED then
        Inr ([Wifi_Reset],
             s\<lparr>wifi_disconnects := wifi_disconnects s + 1,
               wifi_resets := wifi_resets s + 1,
               connect_attempts := 0,
               next_connect_time := now e + CONNECT_DELAY_SECS,
               web_status := WEB_NOT_CONNECTED\<rparr>)
      else
        (case client e of
           Some pclient \<Rightarrow>
             process_client_request p (millis e) pclient (s\<lparr>web_status := WEB_PROCESSING_REQUEST\<rparr>)
         | None \<Rightarrow>
             if ifttt_do_trigger s then Inr ([Ifttt_Trigger], s\<lparr>ifttt_do_trigger := False\<rparr>)
             else Inr ([], s)))"

text \<open>\<open>case WEB_PROCESSING_REQUEST\<close>. The \<open>assert\<close> of the main module is a fault when its
  test is false.\<close>

definition processing_request_step :: "env \<Rightarrow> web_state \<Rightarrow> fault + (action list \<times> web_state)" where
  "processing_request_step e s =
     (if \<not> delayed_response s then Inl Assertion_Failed
      else if delayed_sendtime s < millis e
      then Inr (generate_response RSP_STATUS (s\<lparr>delayed_response := False\<rparr>))
      else Inr ([], s))"

text \<open>One call of \<open>process_web\<close>.\<close>

definition process_web :: "platform \<Rightarrow> env \<Rightarrow> web_state \<Rightarrow> fault + (action list \<times> web_state)" where
  "process_web p e s =
     (if web_enabled p e s then
        (let s1 = s\<lparr>processing_web := True\<rparr>;
             r = (case web_status s1 of
                    WEB_NOT_CONNECTED \<Rightarrow> Inr (not_connected_step p e s1)
                  | WEB_AWAITING_CONNECTION \<Rightarrow> Inr (awaiting_connection_step e s1)
                  | WEB_AWAITING_CLIENT \<Rightarrow> awaiting_client_step p e s1
                  | WEB_PROCESSING_REQUEST \<Rightarrow> processing_request_step e s1)
         in case r of
              Inl f \<Rightarrow> Inl f
            | Inr (acts, s2) \<Rightarrow> Inr (acts, s2\<lparr>processing_web := False\<rparr>))
      else Inr ([], s\<lparr>processing_web := False\<rparr>))"

text \<open>A sequence of calls, one environment for each; the actions are collected in order.
  A fault ends the run.\<close>

fun run_web :: "platform \<Rightarrow> env list \<Rightarrow> web_state \<Rightarrow> fault + (action list \<times> web_state)" where
  "run_web p [] s = Inr ([], s)"
| "run_web p (e # es) s =
     (case process_web p e s of
        Inl f \<Rightarrow> Inl f
      | Inr (acts, s1) \<Rightarrow>
          (case run_web p es s1 of
             Inl f \<Rightarrow> Inl f
           | Inr (acts', s2) \<Rightarrow> Inr (acts @ acts', s2)))"

text \<open>A call in which a pending association attempt ends: in failure (the \<open>default\<close>
  branch of \<open>case WEB_AWAITING_CONNECTION\<close>) or in success.\<close>

definition assoc_failed :: "platform \<Rightarrow> env \<Rightarrow> web_state \<Rightarrow> bool" where
  "assoc_failed p e s =
     (web_enabled p e s \<and> web_status s = WEB_AWAITING_CONNECTION \<and>
      wifi_status e \<noteq> WL_CONNECTED \<and> wifi_status e \<noteq> WL_IDLE_STATUS)"

definition assoc_succeeded :: "platform \<Rightarrow> env \<Rightarrow> web_state \<Rightarrow> bool" where
  "assoc_succeeded p e s =
     (web_enabled p e s \<and> web_status s = WEB_AWAITING_CONNECTION \<and> wifi_status e = WL_CONNECTED)"

text \<open>The number of calls of a run in which an attempt ends in failure, and the runs in
  which no attempt succeeds.\<close>

fun failures :: "platform \<Rightarrow> env list \<Rightarrow> web_state \<Rightarrow> nat" where
  "failures p [] s = 0"
| "failures p (e # es) s =
     (if assoc_failed p e s then 1 else 0) +
     (case process_web p e s of Inl f \<Rightarrow> 0 | Inr (acts, s1) \<Rightarrow> failures p es s1)"

fun never_joined :: "platform \<Rightarrow> env list \<Rightarrow> web_state \<Rightarrow> bool" where
  "never_joined p [] s = True"
| "never_joined p (e # es) s =
     (\<not> assoc_succeeded p e s \<and>
      (case process_web p e s of Inl f \<Rightarrow> True | Inr (acts, s1) \<Rightarrow> never_joined p es s1))"

text \<open>The attempts made since the last reset: \<open>k\<close> of them have failed, and one more is
  pending while the machine awaits the association.\<close>

definition attempts_inv :: "web_state \<Rightarrow> nat \<Rightarrow> bool" where
  "attempts_inv s k =
     (k < 3 \<and>
      (web_status s = WEB_NOT_CONNECTED \<and> connect_attempts s = of_nat k \<or>
       web_status s = WEB_AWAITING_CONNECTION \<and> connect_attempts s = of_nat k + 1))"

section \<open>Example inputs\<close>

text \<open>Inputs for the closed examples below: a request as a browser sends it (request line,
  one header line, an empty line, the body), and the readings of a call made while utility
  power has been on for a long time and the WiFi network is joined, at \<open>millis() = t\<close>,
  with \<open>c\<close> the client that is waiting, if any.\<close>

definition CRLF :: string where
  "CRLF = [CHR 0x0D, CHR 0x0A]"

definition http_request :: "string \<Rightarrow> string \<Rightarrow> char list" where
  "http_request request_line body = request_line @ CRLF @ ''Host: generator'' @ CRLF @ CRLF @ body"

definition powered_env :: "32 word \<Rightarrow> (ipaddr \<times> char list) option \<Rightarrow> env" where
  "powered_env t c =
     \<lparr>util_on = True, util_connected = True, gen_on = False, gen_connected = False,
      last_poweron_time = 0, now0 = 1000, now = 1000, millis = t,
      wifi_status = WL_CONNECTED, client = c\<rparr>"

section \<open>Text expansion: the entities lose their semicolon\<close>

text \<open>C2. The claim: every left-arrow glyph yields the full entity \<open>&#8592;\<close>, every space
  the full entity \<open>&nbsp;\<close>, and a display row with a left arrow and a space renders to a
  string containing both. The code copies each entity with its semicolon but advances the
  write pointer by one less than the entity's length, so the next store (or the final NUL)
  overwrites the semicolon: for the row made of a left arrow and a space,
  \<open>expand_arrows_and_blanks\<close> returns \<open>&#8592&nbsp\<close>, which contains neither entity.\<close>

theorem expand_arrows_and_blanks_loses_semicolons:
  "expand_arrows_and_blanks (replicate MAXLINE NUL) [LEFTARROW, CHR '' ''] = Inr ''&#8592&nbsp''
   \<and> \<not> contains ''&#8592&nbsp'' ''&#8592;''
   \<and> \<not> contains ''&#8592&nbsp'' ''&nbsp;''"
  by code_simp

text \<open>For every source string and every prior content of the buffer, a call that stays
  inside the buffer returns the source with each glyph and blank replaced by its entity
  less the semicolon; the raw left-arrow byte is never in it.\<close>

lemma written_for_no_NUL: "c \<noteq> NUL \<Longrightarrow> NUL \<notin> set (written_for c)"
  by (simp add: written_for_def NUL_def)

lemma expanded_no_NUL: "NUL \<notin> set (expanded src)"
  by (induction src) (simp_all add: written_for_no_NUL)

lemma strcpy_at_prefix:
  assumes "strcpy_at buf dst s = Inr b" and "k \<le> length s"
  shows "take (dst + k) b = take dst buf @ take k s \<and> length b = length buf \<and> dst + k \<le> length b"
  using assms by (auto simp: strcpy_at_def split: if_splits)

lemma poke_prefix:
  assumes "poke buf dst c = Inr b"
  shows "take (dst + 1) b = take dst buf @ [c] \<and> length b = length buf \<and> dst + 1 \<le> length b"
  using assms by (auto simp: poke_def take_Suc_conv_app_nth split: if_splits)

lemma expand_loop_prefix:
  assumes "expand_loop src buf dst = Inr (buf', dst')" and "dst \<le> length buf"
  shows "take dst' buf' = take dst buf @ expanded src \<and> length buf' = length buf \<and> dst' \<le> length buf'"
  using assms
proof (induction src arbitrary: buf dst)
  case Nil
  then show ?case by simp
next
  case (Cons c src)
  show ?case
  proof (cases "c = NUL")
    case True
    with Cons.prems show ?thesis by simp
  next
    case nn: False
    have step: "\<exists>b k. expand_loop (c # src) buf dst = expand_loop src b (dst + k) \<and>
                  take (dst + k) b = take dst buf @ written_for c \<and> length b = length buf \<and>
                  dst + k \<le> length b"
    proof -
      consider (l) "c = LEFTARROW" | (u) "c = UPARROW" | (r) "c = RIGHTARROW" | (d) "c = DOWNARROW"
        | (s) "c = CHR '' ''" | (o) "c \<noteq> LEFTARROW" "c \<noteq> UPARROW" "c \<noteq> RIGHTARROW"
            "c \<noteq> DOWNARROW" "c \<noteq> CHR '' ''"
        by blast
      then show ?thesis
      proof cases
        case l
        with Cons.prems nn obtain b where b: "strcpy_at buf dst ''&#8592;'' = Inr b"
          by (cases "strcpy_at buf dst ''&#8592;''") auto
        from strcpy_at_prefix [OF b, of 6] l nn b show ?thesis
          by (intro exI [of _ b] exI [of _ 6]) (simp add: written_for_def)
      next
        case u
        with Cons.prems nn obtain b where b: "strcpy_at buf dst ''&#8593;'' = Inr b"
          by (cases "strcpy_at buf dst ''&#8593;''") (auto simp: LEFTARROW_def UPARROW_def)
        from strcpy_at_prefix [OF b, of 6] u nn b show ?thesis
          by (intro exI [of _ b] exI [of _ 6])
             (simp add: written_for_def LEFTARROW_def UPARROW_def)
      next
        case r
        with Cons.prems nn obtain b where b: "strcpy_at buf dst ''&#8594;'' = Inr b"
          by (cases "strcpy_at buf dst ''&#8594;''")
             (auto simp: LEFTARROW_def UPARROW_def RIGHTARROW_def)
        from strcpy_at_prefix [OF b, of 6] r nn b show ?thesis
          by (intro exI [of _ b] exI [of _ 6])
             (simp add: written_for_def LEFTARROW_def UPARROW_def RIGHTARROW_def)
      next
        case d
        with Cons.prems nn obtain b where b: "strcpy_at buf dst ''&#8595;'' = Inr b"
          by (cases "strcpy_at buf dst ''&#8595;''")
             (auto simp: LEFTARROW_def UPARROW_def RIGHTARROW_def DOWNARROW_def)
        from strcpy_at_prefix [OF b, of 6] d nn b show ?thesis
          by (intro exI [of _ b] exI [of _ 6])
             (simp add: written_for_def LEFTARROW_def UPARROW_def RIGHTARROW_def DOWNARROW_def)
      next
        case s
        with Cons.prems nn obtain b where b: "strcpy_at buf dst ''&nbsp;'' = Inr b"
          by (cases "strcpy_at buf dst ''&nbsp;''")
             (auto simp: LEFTARROW_def UPARROW_def RIGHTARROW_def DOWNARROW_def NUL_def)
        from strcpy_at_prefix [OF b, of 5] s nn b show ?thesis
          by (intro exI [of _ b] exI [of _ 5])
             (simp add: written_for_def LEFTARROW_def UPARROW_def RIGHTARROW_def DOWNARROW_def)
      next
        case o
        with Cons.prems nn obtain b where b: "poke buf dst c = Inr b"
          by (cases "poke buf dst c") auto
        from poke_prefix [OF b] o nn b show ?thesis
          by (intro exI [of _ b] exI [of _ 1]) (simp add: written_for_def)
      qed
    qed
    then obtain b k where e: "expand_loop (c # src) buf dst = expand_loop src b (dst + k)"
      and t: "take (dst + k) b = take dst buf @ written_for c"
      and len: "length b = length buf" and le: "dst + k \<le> length b"
      by blast
    from Cons.prems e have "expand_loop src b (dst + k) = Inr (buf', dst')" by simp
    from Cons.IH [OF this le] t len nn show ?thesis by simp
  qed
qed

lemma c_string_terminated:
  assumes "NUL \<notin> set (take n buf)" and "n < length buf"
  shows "c_string (buf[n := NUL]) = take n buf"
proof -
  have u: "buf[n := NUL] = take n buf @ NUL # drop (Suc n) buf"
    using assms(2) by (rule upd_conv_take_nth_drop)
  have "\<forall>x\<in>set (take n buf). x \<noteq> NUL" using assms(1) by blast
  then have "takeWhile (\<lambda>c. c \<noteq> NUL) (take n buf @ NUL # drop (Suc n) buf) = take n buf"
    by (simp add: takeWhile_tail)
  with u show ?thesis by (simp add: c_string_def)
qed

lemma expand_arrows_and_blanks_result:
  assumes "expand_arrows_and_blanks outmsg0 msg = Inr out"
  shows "out = expanded msg"
proof -
  from assms obtain buf dst where l: "expand_loop msg outmsg0 0 = Inr (buf, dst)"
    and p: "poke buf dst NUL \<noteq> Inl Out_Of_Bounds"
    and o: "out = c_string (buf[dst := NUL])"
    by (cases "expand_loop msg outmsg0 0")
       (auto simp: expand_arrows_and_blanks_def poke_def split: if_splits)
  from expand_loop_prefix [OF l] have t: "take dst buf = expanded msg" by simp
  from p have d: "dst < length buf" by (simp add: poke_def split: if_splits)
  have "NUL \<notin> set (take dst buf)" using t expanded_no_NUL by simp
  from c_string_terminated [OF this d] o t show ?thesis by simp
qed


lemma expanded_no_left_arrow: "LEFTARROW \<notin> set (expanded msg)"
  by (induction msg) (simp_all add: written_for_def LEFTARROW_def)

section \<open>Visitor table: the scan with the \<open>INT_MAX\<close> sentinel\<close>

text \<open>C9. The claim: for a peer not in the table the slot chosen for the new record always
  lies in \<open>0 .. MAX_IP_ADDRESSES-1\<close>, also when the table is full and every count is at
  least \<open>INT_MAX\<close>. In that table the strict comparison against the sentinel never holds,
  \<open>min_ndx\<close> keeps its initial value \<open>-1\<close>, and the store goes through \<open>clients[-1]\<close>.\<close>

theorem add_IP_address_full_table_at_INT_MAX:
  "scan_clients 77
     (map (\<lambda>i. \<lparr>ip_address = of_nat i, count = INT_MAX, gave_password = False\<rparr>) [1..<26])
     0 (- 1) (- 1) INT_MAX = Scanned (- 1) (- 1)
   \<and> add_IP_address 77
     (map (\<lambda>i. \<lparr>ip_address = of_nat i, count = INT_MAX, gave_password = False\<rparr>) [1..<26])
     = Inl Out_Of_Bounds"
  by code_simp

section \<open>Event log: the walk from newest to oldest\<close>

lemma log_walk_down:
  assumes "o_ndx < cap"
  shows "d < cap \<Longrightarrow>
    log_walk (int cap) (int o_ndx) (int ((o_ndx + d) mod cap)) printed =
      Some (Inr (printed @ map (\<lambda>j. int ((o_ndx + d - j) mod cap)) [0..<Suc d]))"
proof (induction d arbitrary: printed)
  case 0
  with assms show ?case by (subst log_walk.simps) simp
next
  case (Suc d)
  let ?n = "(o_ndx + Suc d) mod cap"
  have cap: "0 < cap" using assms by simp
  have d: "d < cap" using Suc.prems by simp
  have in_range: "?n < cap" using cap by simp
  have ne: "?n \<noteq> o_ndx"
  proof
    assume e: "?n = o_ndx"
    show False
    proof (cases "o_ndx + Suc d < cap")
      case True
      with e show False by simp
    next
      case False
      then have "?n = o_ndx + Suc d - cap"
        using assms Suc.prems by (simp add: le_mod_geq)
      with e False Suc.prems show False by simp
    qed
  qed
  have prev: "(if int ?n - 1 < 0 then int cap - 1 else int ?n - 1) = int ((o_ndx + d) mod cap)"
  proof (cases "?n = 0")
    case True
    then have "Suc ((o_ndx + d) mod cap) = cap"
      using cap by (simp add: mod_Suc split: if_splits)
    with True show ?thesis by simp
  next
    case False
    then have "?n = Suc ((o_ndx + d) mod cap)"
      by (simp add: mod_Suc split: if_splits)
    then show ?thesis by simp
  qed
  have "log_walk (int cap) (int o_ndx) (int ?n) printed =
        log_walk (int cap) (int o_ndx) (int ((o_ndx + d) mod cap)) (printed @ [int ?n])"
    using in_range ne prev by (subst log_walk.simps) simp
  also have "\<dots> = Some (Inr ((printed @ [int ?n]) @
                 map (\<lambda>j. int ((o_ndx + d - j) mod cap)) [0..<Suc d]))"
    by (rule Suc.IH [OF d])
  also have "(printed @ [int ?n]) @ map (\<lambda>j. int ((o_ndx + d - j) mod cap)) [0..<Suc d] =
             printed @ map (\<lambda>j. int ((o_ndx + Suc d - j) mod cap)) [0..<Suc (Suc d)]"
  proof -
    have "map (\<lambda>j. int ((o_ndx + Suc d - j) mod cap)) [0..<Suc (Suc d)] =
          int ?n # map (\<lambda>j. int ((o_ndx + Suc d - Suc j) mod cap)) [0..<Suc d]"
      by (simp only: map_upt_Suc) simp
    then show ?thesis by simp
  qed
  finally show ?case .
qed

text \<open>C4. Under the ring invariant with \<open>k\<close> entries the log page prints exactly \<open>k\<close>
  rows: the walk starts at \<open>newest\<close>, steps downward with wraparound at the capacity and
  ends at \<open>oldest\<close> inclusive, so the rows are in reverse insertion order; with no entry
  it prints none.\<close>

theorem log_rows_newest_first:
  assumes "ring_inv cap hdr k"
  shows "log_rows (int cap) hdr =
           Some (Inr (map (\<lambda>j. int ((unat (oldest hdr) + (k - 1) - j) mod cap)) [0..<k]))"
proof (cases "k = 0")
  case True
  with assms have "num_entries hdr = 0" by (simp add: ring_inv_def unat_eq_0)
  with True show ?thesis by (simp add: log_rows_def)
next
  case False
  with assms have o: "unat (oldest hdr) < cap" and d: "k - 1 < cap"
    and n: "unat (newest hdr) = (unat (oldest hdr) + (k - 1)) mod cap"
    and c: "num_entries hdr \<noteq> 0"
    by (auto simp: ring_inv_def)
  from c have "0 < num_entries hdr" by (simp add: word_gt_0)
  moreover have "uint (newest hdr) = int ((unat (oldest hdr) + (k - 1)) mod cap)"
    and "uint (oldest hdr) = int (unat (oldest hdr))"
    using n by (simp_all only: uint_nat)
  ultimately have "log_rows (int cap) hdr =
      log_walk (int cap) (int (unat (oldest hdr))) (int ((unat (oldest hdr) + (k - 1)) mod cap)) []"
    by (simp only: log_rows_def if_True)
  also have "\<dots> = Some (Inr ([] @ map (\<lambda>j. int ((unat (oldest hdr) + (k - 1) - j) mod cap)) [0..<Suc (k - 1)]))"
    by (rule log_walk_down [OF o d])
  finally show ?thesis using False by simp
qed

theorem log_rows_newest_first_witness:
  "ring_inv 5 \<lparr>num_entries = 3, newest = 1, oldest = 4\<rparr> 3 \<and>
   log_rows 5 \<lparr>num_entries = 3, newest = 1, oldest = 4\<rparr> = Some (Inr [1, 0, 4])"
proof -
  have h: "ring_inv 5 \<lparr>num_entries = 3, newest = 1, oldest = 4\<rparr> 3"
    by (simp add: ring_inv_def)
  from log_rows_newest_first [OF h] show ?thesis using h by (simp add: upt_rec)
qed


section \<open>Visitor table: what the scan finds\<close>

lemma scan_clients_found:
  assumes "\<exists>c\<in>set cs. ip_address c = addr"
  shows "\<exists>j<length cs. scan_clients addr cs n e m mc = Found (n + j) \<and>
           ip_address (cs ! j) = addr \<and> (\<forall>i<j. ip_address (cs ! i) \<noteq> addr)"
  using assms
proof (induction cs arbitrary: n e m mc)
  case Nil
  then show ?case by simp
next
  case (Cons c cs)
  show ?case
  proof (cases "ip_address c = addr")
    case True
    then show ?thesis by (intro exI [of _ 0]) simp
  next
    case False
    with Cons.prems have ex: "\<exists>c\<in>set cs. ip_address c = addr" by simp
    have "\<exists>j<length cs. scan_clients addr (c # cs) n e m mc = Found (Suc n + j) \<and>
           ip_address (cs ! j) = addr \<and> (\<forall>i<j. ip_address (cs ! i) \<noteq> addr)"
      using False Cons.IH [OF ex, of "Suc n"] by simp
    then obtain j where j: "j < length cs" "scan_clients addr (c # cs) n e m mc = Found (Suc n + j)"
      "ip_address (cs ! j) = addr" "\<forall>i<j. ip_address (cs ! i) \<noteq> addr" by blast
    show ?thesis
    proof (intro exI [of _ "Suc j"] conjI allI impI)
      show "Suc j < length (c # cs)" using j by simp
      show "scan_clients addr (c # cs) n e m mc = Found (n + Suc j)" using j by simp
      show "ip_address ((c # cs) ! Suc j) = addr" using j by simp
      fix i assume "i < Suc j"
      then show "ip_address ((c # cs) ! i) \<noteq> addr"
        using j False by (cases i) auto
    qed
  qed
qed

lemma scan_clients_not_found:
  assumes "\<forall>c\<in>set cs. ip_address c \<noteq> addr"
  shows "\<exists>e' m'. scan_clients addr cs n e m mc = Scanned e' m' \<and>
     ((\<forall>c\<in>set cs. count c \<noteq> 0) \<and> e' = e \<or>
      (\<exists>pre x post. cs = pre @ x # post \<and> e' = int (n + length pre) \<and> count x = 0 \<and>
          (\<forall>c\<in>set post. count c \<noteq> 0))) \<and>
     ((\<forall>c\<in>set cs. count c \<noteq> 0 \<longrightarrow> sint mc \<le> sint (count c)) \<and> m' = m \<or>
      (\<exists>pre x post. cs = pre @ x # post \<and> m' = int (n + length pre) \<and> count x \<noteq> 0 \<and>
          sint (count x) < sint mc \<and>
          (\<forall>c\<in>set pre. count c \<noteq> 0 \<longrightarrow> sint (count x) < sint (count c)) \<and>
          (\<forall>c\<in>set post. count c \<noteq> 0 \<longrightarrow> sint (count x) \<le> sint (count c))))"
  using assms
proof (induction cs arbitrary: n e m mc)
  case Nil
  then show ?case by simp
next
  case (Cons c cs)
  then have nf: "\<forall>c\<in>set cs. ip_address c \<noteq> addr" and c: "ip_address c \<noteq> addr" by simp_all
  consider (empty) "count c = 0"
    | (less) "count c \<noteq> 0" "sint (count c) < sint mc"
    | (geq) "count c \<noteq> 0" "sint mc \<le> sint (count c)"
    by linarith
  then show ?case
  proof cases
    case empty
    from Cons.IH [OF nf, of "Suc n" "int n" m mc]
    obtain e' m' where s: "scan_clients addr cs (Suc n) (int n) m mc = Scanned e' m'"
      and E: "(\<forall>c\<in>set cs. count c \<noteq> 0) \<and> e' = int n \<or>
      (\<exists>pre x post. cs = pre @ x # post \<and> e' = int (Suc n + length pre) \<and> count x = 0 \<and>
          (\<forall>c\<in>set post. count c \<noteq> 0))"
      and M: "(\<forall>c\<in>set cs. count c \<noteq> 0 \<longrightarrow> sint mc \<le> sint (count c)) \<and> m' = m \<or>
      (\<exists>pre x post. cs = pre @ x # post \<and> m' = int (Suc n + length pre) \<and> count x \<noteq> 0 \<and>
          sint (count x) < sint mc \<and>
          (\<forall>c\<in>set pre. count c \<noteq> 0 \<longrightarrow> sint (count x) < sint (count c)) \<and>
          (\<forall>c\<in>set post. count c \<noteq> 0 \<longrightarrow> sint (count x) \<le> sint (count c)))"
      by blast
    have s': "scan_clients addr (c # cs) n e m mc = Scanned e' m'"
      using c empty s by simp
    have E': "\<exists>pre x post. c # cs = pre @ x # post \<and> e' = int (n + length pre) \<and> count x = 0 \<and>
          (\<forall>c\<in>set post. count c \<noteq> 0)"
      using E
    proof
      assume "(\<forall>c\<in>set cs. count c \<noteq> 0) \<and> e' = int n"
      then show ?thesis using empty
        by (intro exI [of _ "[]"] exI [of _ c] exI [of _ cs]) simp
    next
      assume "\<exists>pre x post. cs = pre @ x # post \<and> e' = int (Suc n + length pre) \<and> count x = 0 \<and>
          (\<forall>c\<in>set post. count c \<noteq> 0)"
      then obtain pre x post where "cs = pre @ x # post" "e' = int (Suc n + length pre)"
        "count x = 0" "\<forall>c\<in>set post. count c \<noteq> 0" by blast
      then show ?thesis
        by (intro exI [of _ "c # pre"] exI [of _ x] exI [of _ post]) simp
    qed
    have M': "(\<forall>c\<in>set (c # cs). count c \<noteq> 0 \<longrightarrow> sint mc \<le> sint (count c)) \<and> m' = m \<or>
      (\<exists>pre x post. c # cs = pre @ x # post \<and> m' = int (n + length pre) \<and> count x \<noteq> 0 \<and>
          sint (count x) < sint mc \<and>
          (\<forall>c\<in>set pre. count c \<noteq> 0 \<longrightarrow> sint (count x) < sint (count c)) \<and>
          (\<forall>c\<in>set post. count c \<noteq> 0 \<longrightarrow> sint (count x) \<le> sint (count c)))"
      using M
    proof
      assume "(\<forall>c\<in>set cs. count c \<noteq> 0 \<longrightarrow> sint mc \<le> sint (count c)) \<and> m' = m"
      then show ?thesis using empty by simp
    next
      assume "\<exists>pre x post. cs = pre @ x # post \<and> m' = int (Suc n + length pre) \<and> count x \<noteq> 0 \<and>
          sint (count x) < sint mc \<and>
          (\<forall>c\<in>set pre. count c \<noteq> 0 \<longrightarrow> sint (count x) < sint (count c)) \<and>
          (\<forall>c\<in>set post. count c \<noteq> 0 \<longrightarrow> sint (count x) \<le> sint (count c))"
      then obtain pre x post where "cs = pre @ x # post" "m' = int (Suc n + length pre)"
        "count x \<noteq> 0" "sint (count x) < sint mc"
        "\<forall>c\<in>set pre. count c \<noteq> 0 \<longrightarrow> sint (count x) < sint (count c)"
        "\<forall>c\<in>set post. count c \<noteq> 0 \<longrightarrow> sint (count x) \<le> sint (count c)" by blast
      then have "c # cs = (c # pre) @ x # post \<and> m' = int (n + length (c # pre)) \<and> count x \<noteq> 0 \<and>
          sint (count x) < sint mc \<and>
          (\<forall>c\<in>set (c # pre). count c \<noteq> 0 \<longrightarrow> sint (count x) < sint (count c)) \<and>
          (\<forall>c\<in>set post. count c \<noteq> 0 \<longrightarrow> sint (count x) \<le> sint (count c))"
        using empty by simp
      then show ?thesis by blast
    qed
    from s' E' M' show ?thesis by blast
  next
    case less
    from Cons.IH [OF nf, of "Suc n" e "int n" "count c"]
    obtain e' m' where s: "scan_clients addr cs (Suc n) e (int n) (count c) = Scanned e' m'"
      and E: "(\<forall>c\<in>set cs. count c \<noteq> 0) \<and> e' = e \<or>
      (\<exists>pre x post. cs = pre @ x # post \<and> e' = int (Suc n + length pre) \<and> count x = 0 \<and>
          (\<forall>c\<in>set post. count c \<noteq> 0))"
      and M: "(\<forall>d\<in>set cs. count d \<noteq> 0 \<longrightarrow> sint (count c) \<le> sint (count d)) \<and> m' = int n \<or>
      (\<exists>pre x post. cs = pre @ x # post \<and> m' = int (Suc n + length pre) \<and> count x \<noteq> 0 \<and>
          sint (count x) < sint (count c) \<and>
          (\<forall>c\<in>set pre. count c \<noteq> 0 \<longrightarrow> sint (count x) < sint (count c)) \<and>
          (\<forall>c\<in>set post. count c \<noteq> 0 \<longrightarrow> sint (count x) \<le> sint (count c)))"
      by blast
    have s': "scan_clients addr (c # cs) n e m mc = Scanned e' m'"
      using c less s by (simp add: word_sless_alt)
    have E': "(\<forall>c\<in>set (c # cs). count c \<noteq> 0) \<and> e' = e \<or>
      (\<exists>pre x post. c # cs = pre @ x # post \<and> e' = int (n + length pre) \<and> count x = 0 \<and>
          (\<forall>c\<in>set post. count c \<noteq> 0))"
      using E
    proof
      assume "(\<forall>c\<in>set cs. count c \<noteq> 0) \<and> e' = e"
      then show ?thesis using less by simp
    next
      assume "\<exists>pre x post. cs = pre @ x # post \<and> e' = int (Suc n + length pre) \<and> count x = 0 \<and>
          (\<forall>c\<in>set post. count c \<noteq> 0)"
      then obtain pre x post where "cs = pre @ x # post" "e' = int (Suc n + length pre)"
        "count x = 0" "\<forall>c\<in>set post. count c \<noteq> 0" by blast
      then have "c # cs = (c # pre) @ x # post \<and> e' = int (n + length (c # pre)) \<and> count x = 0 \<and>
          (\<forall>c\<in>set post. count c \<noteq> 0)" by simp
      then show ?thesis by blast
    qed
    have M': "\<exists>pre x post. c # cs = pre @ x # post \<and> m' = int (n + length pre) \<and> count x \<noteq> 0 \<and>
          sint (count x) < sint mc \<and>
          (\<forall>c\<in>set pre. count c \<noteq> 0 \<longrightarrow> sint (count x) < sint (count c)) \<and>
          (\<forall>c\<in>set post. count c \<noteq> 0 \<longrightarrow> sint (count x) \<le> sint (count c))"
      using M
    proof
      assume "(\<forall>d\<in>set cs. count d \<noteq> 0 \<longrightarrow> sint (count c) \<le> sint (count d)) \<and> m' = int n"
      then show ?thesis using less
        by (intro exI [of _ "[]"] exI [of _ c] exI [of _ cs]) simp
    next
      assume "\<exists>pre x post. cs = pre @ x # post \<and> m' = int (Suc n + length pre) \<and> count x \<noteq> 0 \<and>
          sint (count x) < sint (count c) \<and>
          (\<forall>c\<in>set pre. count c \<noteq> 0 \<longrightarrow> sint (count x) < sint (count c)) \<and>
          (\<forall>c\<in>set post. count c \<noteq> 0 \<longrightarrow> sint (count x) \<le> sint (count c))"
      then obtain pre x post where "cs = pre @ x # post" "m' = int (Suc n + length pre)"
        "count x \<noteq> 0" "sint (count x) < sint (count c)"
        "\<forall>c\<in>set pre. count c \<noteq> 0 \<longrightarrow> sint (count x) < sint (count c)"
        "\<forall>c\<in>set post. count c \<noteq> 0 \<longrightarrow> sint (count x) \<le> sint (count c)" by blast
      then have "c # cs = (c # pre) @ x # post \<and> m' = int (n + length (c # pre)) \<and> count x \<noteq> 0 \<and>
          sint (count x) < sint mc \<and>
          (\<forall>c\<in>set (c # pre). count c \<noteq> 0 \<longrightarrow> sint (count x) < sint (count c)) \<and>
          (\<forall>c\<in>set post. count c \<noteq> 0 \<longrightarrow> sint (count x) \<le> sint (count c))"
        using less by simp
      then show ?thesis by blast
    qed
    from s' E' M' show ?thesis by blast
  next
    case geq
    from Cons.IH [OF nf, of "Suc n" e m mc]
    obtain e' m' where s: "scan_clients addr cs (Suc n) e m mc = Scanned e' m'"
      and E: "(\<forall>c\<in>set cs. count c \<noteq> 0) \<and> e' = e \<or>
      (\<exists>pre x post. cs = pre @ x # post \<and> e' = int (Suc n + length pre) \<and> count x = 0 \<and>
          (\<forall>c\<in>set post. count c \<noteq> 0))"
      and M: "(\<forall>c\<in>set cs. count c \<noteq> 0 \<longrightarrow> sint mc \<le> sint (count c)) \<and> m' = m \<or>
      (\<exists>pre x post. cs = pre @ x # post \<and> m' = int (Suc n + length pre) \<and> count x \<noteq> 0 \<and>
          sint (count x) < sint mc \<and>
          (\<forall>c\<in>set pre. count c \<noteq> 0 \<longrightarrow> sint (count x) < sint (count c)) \<and>
          (\<forall>c\<in>set post. count c \<noteq> 0 \<longrightarrow> sint (count x) \<le> sint (count c)))"
      by blast
    have s': "scan_clients addr (c # cs) n e m mc = Scanned e' m'"
      using c geq s by (simp add: word_sless_alt)
    have E': "(\<forall>c\<in>set (c # cs). count c \<noteq> 0) \<and> e' = e \<or>
      (\<exists>pre x post. c # cs = pre @ x # post \<and> e' = int (n + length pre) \<and> count x = 0 \<and>
          (\<forall>c\<in>set post. count c \<noteq> 0))"
      using E
    proof
      assume "(\<forall>c\<in>set cs. count c \<noteq> 0) \<and> e' = e"
      then show ?thesis using geq by simp
    next
      assume "\<exists>pre x post. cs = pre @ x # post \<and> e' = int (Suc n + length pre) \<and> count x = 0 \<and>
          (\<forall>c\<in>set post. count c \<noteq> 0)"
      then obtain pre x post where "cs = pre @ x # post" "e' = int (Suc n + length pre)"
        "count x = 0" "\<forall>c\<in>set post. count c \<noteq> 0" by blast
      then have "c # cs = (c # pre) @ x # post \<and> e' = int (n + length (c # pre)) \<and> count x = 0 \<and>
          (\<forall>c\<in>set post. count c \<noteq> 0)" by simp
      then show ?thesis by blast
    qed
    have M': "(\<forall>c\<in>set (c # cs). count c \<noteq> 0 \<longrightarrow> sint mc \<le> sint (count c)) \<and> m' = m \<or>
      (\<exists>pre x post. c # cs = pre @ x # post \<and> m' = int (n + length pre) \<and> count x \<noteq> 0 \<and>
          sint (count x) < sint mc \<and>
          (\<forall>c\<in>set pre. count c \<noteq> 0 \<longrightarrow> sint (count x) < sint (count c)) \<and>
          (\<forall>c\<in>set post. count c \<noteq> 0 \<longrightarrow> sint (count x) \<le> sint (count c)))"
      using M
    proof
      assume "(\<forall>c\<in>set cs. count c \<noteq> 0 \<longrightarrow> sint mc \<le> sint (count c)) \<and> m' = m"
      then show ?thesis using geq by simp
    next
      assume "\<exists>pre x post. cs = pre @ x # post \<and> m' = int (Suc n + length pre) \<and> count x \<noteq> 0 \<and>
          sint (count x) < sint mc \<and>
          (\<forall>c\<in>set pre. count c \<noteq> 0 \<longrightarrow> sint (count x) < sint (count c)) \<and>
          (\<forall>c\<in>set post. count c \<noteq> 0 \<longrightarrow> sint (count x) \<le> sint (count c))"
      then obtain pre x post where "cs = pre @ x # post" "m' = int (Suc n + length pre)"
        "count x \<noteq> 0" "sint (count x) < sint mc"
        "\<forall>c\<in>set pre. count c \<noteq> 0 \<longrightarrow> sint (count x) < sint (count c)"
        "\<forall>c\<in>set post. count c \<noteq> 0 \<longrightarrow> sint (count x) \<le> sint (count c)" by blast
      then have "c # cs = (c # pre) @ x # post \<and> m' = int (n + length (c # pre)) \<and> count x \<noteq> 0 \<and>
          sint (count x) < sint mc \<and>
          (\<forall>c\<in>set (c # pre). count c \<noteq> 0 \<longrightarrow> sint (count x) < sint (count c)) \<and>
          (\<forall>c\<in>set post. count c \<noteq> 0 \<longrightarrow> sint (count x) \<le> sint (count c))"
        using geq by simp
      then show ?thesis by blast
    qed
    from s' E' M' show ?thesis by blast
  qed
qed


section \<open>Request loops\<close>

lemma lines_loop_foldl:
  "fst (lines_loop body inp acc) = foldl (\<lambda>a l. body l a) acc (request_lines inp)"
proof (induction body inp acc rule: lines_loop.induct)
  case (1 body inp acc)
  obtain ok linebuf rest where g: "get_request_line inp = (ok, linebuf, rest)"
    by (cases "get_request_line inp") auto
  show ?case
  proof (cases ok)
    case True
    with g 1 show ?thesis
      by (subst lines_loop.simps, subst request_lines.simps) simp
  next
    case False
    with g show ?thesis
      by (subst lines_loop.simps, subst request_lines.simps) simp
  qed
qed

lemma map_update_same: "(map f xs)[i := f (xs ! i)] = map f xs"
  by (cases "i < length xs") (simp_all add: list_update_same_conv list_update_beyond)

text \<open>The password loop: the response, the flag of the current client, and what is kept.\<close>

lemma setpass_fold:
  "\<exists>tab. foldl (\<lambda>a l. setpass_line p l a) (r, s) ls =
            (if ls = [] then r else if scan_password p (last ls) then RSP_STATUS else RSP_ASKPASS,
             s\<lparr>clients := tab\<rparr>)
          \<and> length tab = length (clients s)
          \<and> map count tab = map count (clients s)
          \<and> (current_client s < length (clients s) \<longrightarrow>
               gave_password (tab ! current_client s) =
                 (gave_password (clients s ! current_client s) \<or> (\<exists>l\<in>set ls. scan_password p l)))"
proof (induction ls arbitrary: r s)
  case Nil
  show ?case by (rule exI [of _ "clients s"]) simp
next
  case (Cons l ls)
  define s1 where "s1 = (if scan_password p l
                  then s\<lparr>clients := (clients s)[current_client s :=
                         (clients s ! current_client s)\<lparr>gave_password := True\<rparr>]\<rparr> else s)"
  define r1 where "r1 = (if scan_password p l then RSP_STATUS else RSP_ASKPASS)"
  have st: "setpass_line p l (r, s) = (r1, s1)"
    by (simp add: setpass_line_def s1_def r1_def)
  have cc: "current_client s1 = current_client s"
    and len: "length (clients s1) = length (clients s)"
    and cnt: "map count (clients s1) = map count (clients s)"
    and upd: "s1\<lparr>clients := tab\<rparr> = s\<lparr>clients := tab\<rparr>" for tab
    by (simp_all add: s1_def map_update map_update_same)
  have g1: "current_client s < length (clients s) \<Longrightarrow>
            gave_password (clients s1 ! current_client s) =
              (gave_password (clients s ! current_client s) \<or> scan_password p l)"
    by (simp add: s1_def)
  from Cons.IH [of r1 s1]
  obtain tab where f: "foldl (\<lambda>a l. setpass_line p l a) (r1, s1) ls =
            (if ls = [] then r1 else if scan_password p (last ls) then RSP_STATUS else RSP_ASKPASS,
             s1\<lparr>clients := tab\<rparr>)"
      and l: "length tab = length (clients s1)"
      and c: "map count tab = map count (clients s1)"
      and g: "current_client s1 < length (clients s1) \<longrightarrow>
               gave_password (tab ! current_client s1) =
                 (gave_password (clients s1 ! current_client s1) \<or> (\<exists>l\<in>set ls. scan_password p l))"
    by blast
  show ?case
  proof (intro exI [of _ tab] conjI impI)
    show "foldl (\<lambda>a l. setpass_line p l a) (r, s) (l # ls) =
      (if l # ls = [] then r
       else if scan_password p (last (l # ls)) then RSP_STATUS else RSP_ASKPASS,
       s\<lparr>clients := tab\<rparr>)"
      using f st by (simp add: upd r1_def)
    show "length tab = length (clients s)" using l len by simp
    show "map count tab = map count (clients s)" using c cnt by simp
    assume "current_client s < length (clients s)"
    with g g1 cc len
    show "gave_password (tab ! current_client s) =
      (gave_password (clients s ! current_client s) \<or> (\<exists>l\<in>set (l # ls). scan_password p l))"
      by auto
  qed
qed

text \<open>The pushbutton loop.\<close>

lemma pushbutton_fold_fault:
  "foldl (\<lambda>a l. pushbutton_line p m l a) (Inl f) ls = Inl f"
  by (induction ls) (simp_all add: pushbutton_line_def)

lemma pushbutton_fold_unauthorized:
  assumes "\<not> gave_password (clients s ! current_client s)"
  shows "foldl (\<lambda>a l. pushbutton_line p m l a) (Inr (r, s)) ls =
           Inr (if \<exists>l\<in>set ls. scan_button p l \<noteq> None then RSP_ASKPASS else r, s)"
  using assms
  by (induction ls arbitrary: r) (auto simp: pushbutton_line_def split: option.splits)

lemma pushbutton_fold_no_button:
  assumes "List.map_filter (scan_button p) ls = []"
  shows "foldl (\<lambda>a l. pushbutton_line p m l a) (Inr (r, s)) ls = Inr (r, s)"
  using assms
  by (induction ls) (auto simp: pushbutton_line_def List.map_filter_simps split: option.splits)

lemma map_filter_single:
  assumes "List.map_filter f ls = [i]"
  shows "\<exists>ls1 l ls2. ls = ls1 @ l # ls2 \<and> f l = Some i \<and>
           List.map_filter f ls1 = [] \<and> List.map_filter f ls2 = []"
  using assms
proof (induction ls)
  case Nil
  then show ?case by (simp add: List.map_filter_simps)
next
  case (Cons a ls)
  show ?case
  proof (cases "f a")
    case None
    with Cons.prems have "List.map_filter f ls = [i]" by (simp add: List.map_filter_simps)
    from Cons.IH [OF this] obtain ls1 l ls2 where
      "ls = ls1 @ l # ls2" "f l = Some i" "List.map_filter f ls1 = []" "List.map_filter f ls2 = []"
      by blast
    with None show ?thesis
      by (intro exI [of _ "a # ls1"] exI [of _ l] exI [of _ ls2]) (simp add: List.map_filter_simps)
  next
    case (Some b)
    with Cons.prems have "b = i" "List.map_filter f ls = []" by (simp_all add: List.map_filter_simps)
    with Some show ?thesis
      by (intro exI [of _ "[]"] exI [of _ a] exI [of _ ls]) (simp add: List.map_filter_simps)
  qed
qed

lemma pushbutton_fold_one_button:
  assumes auth: "gave_password (clients s ! current_client s)"
    and one: "List.map_filter (scan_button p) ls = [i]"
    and rng: "0 \<le> i" "i < int (length (button_webpushed s))"
  shows "foldl (\<lambda>a l. pushbutton_line p m l a) (Inr (r, s)) ls =
           Inr (RSP_NONE,
                s\<lparr>button_webpushed := (button_webpushed s)[nat i := True],
                  delayed_response := True,
                  delayed_sendtime := m + DELAYED_RSP_MSEC\<rparr>)"
proof -
  from map_filter_single [OF one] obtain ls1 l ls2 where
    ls: "ls = ls1 @ l # ls2" and l: "scan_button p l = Some i"
    and n1: "List.map_filter (scan_button p) ls1 = []"
    and n2: "List.map_filter (scan_button p) ls2 = []"
    by blast
  have "pushbutton_line p m l (Inr (r, s)) =
          Inr (RSP_NONE,
                s\<lparr>button_webpushed := (button_webpushed s)[nat i := True],
                  delayed_response := True,
                  delayed_sendtime := m + DELAYED_RSP_MSEC\<rparr>)"
    using auth l rng by (simp add: pushbutton_line_def queue_button_push_def)
  then show ?thesis
    by (simp add: ls pushbutton_fold_no_button [OF n1] pushbutton_fold_no_button [OF n2])
qed

text \<open>What the pushbutton loop keeps in every case.\<close>

lemma pushbutton_fold_frame:
  assumes "foldl (\<lambda>a l. pushbutton_line p m l a) (Inr (r, s)) ls = Inr (r', s')"
  shows "clients s' = clients s \<and> current_client s' = current_client s \<and>
         requests_processed s' = requests_processed s \<and>
         ifttt_do_trigger s' = ifttt_do_trigger s \<and> web_status s' = web_status s"
  using assms
proof (induction ls arbitrary: r s)
  case Nil
  then show ?case by simp
next
  case (Cons l ls)
  show ?case
  proof (cases "pushbutton_line p m l (Inr (r, s))")
    case (Inl f)
    with Cons.prems show ?thesis by (simp add: pushbutton_fold_fault)
  next
    case (Inr a)
    obtain r1 s1 where a: "a = (r1, s1)" by (cases a) auto
    have k: "clients s1 = clients s \<and> current_client s1 = current_client s \<and>
         requests_processed s1 = requests_processed s \<and>
         ifttt_do_trigger s1 = ifttt_do_trigger s \<and> web_status s1 = web_status s"
      using Inr a
      by (auto simp: pushbutton_line_def queue_button_push_def split: option.splits if_splits sum.splits)
    from Cons.prems Inr a have "foldl (\<lambda>a l. pushbutton_line p m l a) (Inr (r1, s1)) ls = Inr (r', s')"
      by simp
    from Cons.IH [OF this] k show ?thesis by simp
  qed
qed


section \<open>Processing a request: frame lemmas\<close>

lemma scan_clients_Found_bound:
  "scan_clients addr cs n e m mc = Found k \<Longrightarrow> n \<le> k \<and> k < n + length cs"
proof (induction cs arbitrary: n e m mc)
  case Nil
  then show ?case by simp
next
  case (Cons c cs)
  show ?case
  proof (cases "ip_address c = addr")
    case True
    with Cons.prems show ?thesis by simp
  next
    case False
    with Cons.prems have "\<exists>e' m' mc'. scan_clients addr cs (Suc n) e' m' mc' = Found k"
      by (auto split: if_splits)
    then obtain e' m' mc' where "scan_clients addr cs (Suc n) e' m' mc' = Found k" by blast
    from Cons.IH [OF this] show ?thesis by simp
  qed
qed

lemma add_IP_address_bounds:
  assumes "add_IP_address addr tab0 = Inr (ndx, tab)"
  shows "ndx < length tab \<and> length tab = length tab0"
proof (cases "scan_clients addr (take MAX_IP_ADDRESSES tab0) 0 (- 1) (- 1) INT_MAX")
  case (Found k)
  from scan_clients_Found_bound [OF Found] have "k < length tab0" by simp
  with assms Found show ?thesis by (simp add: add_IP_address_def)
next
  case (Scanned e m)
  with assms show ?thesis
    by (auto simp: add_IP_address_def Let_def split: if_splits)
qed

lemma add_IP_address_known:
  assumes "addr \<in> ip_address ` set (take MAX_IP_ADDRESSES tab0)"
  shows "\<exists>ndx<length tab0. add_IP_address addr tab0 = Inr (ndx, tab0) \<and>
           ip_address (tab0 ! ndx) = addr \<and> addr \<notin> ip_address ` set (take ndx tab0)"
proof -
  let ?cs = "take MAX_IP_ADDRESSES tab0"
  from assms have "\<exists>c\<in>set ?cs. ip_address c = addr" by auto
  from scan_clients_found [OF this, of 0 "- 1" "- 1" INT_MAX]
  obtain j where j: "j < length ?cs" "scan_clients addr ?cs 0 (- 1) (- 1) INT_MAX = Found j"
    "ip_address (?cs ! j) = addr" "\<forall>i<j. ip_address (?cs ! i) \<noteq> addr"
    by auto
  have "addr \<notin> ip_address ` set (take j tab0)"
  proof
    assume "addr \<in> ip_address ` set (take j tab0)"
    then obtain i where "i < length (take j tab0)" "ip_address (take j tab0 ! i) = addr"
      by (auto simp: in_set_conv_nth)
    with j show False by auto
  qed
  with j show ?thesis
    by (intro exI [of _ j]) (simp add: add_IP_address_def)
qed

text \<open>What the choice of the response keeps.\<close>

lemma choose_response_frame:
  assumes "choose_response p m rt body s = Inr (r, s')"
  shows "map count (clients s') = map count (clients s) \<and>
         length (clients s') = length (clients s) \<and>
         current_client s' = current_client s \<and>
         requests_processed s' = requests_processed s \<and>
         ifttt_do_trigger s' = ifttt_do_trigger s"
proof -
  consider (push) "rt = REQ_PUSHBUTTON" "2 < length body"
    | (pass) "rt = REQ_SETPASS"
    | (other) "s' = s"
    using assms by (auto simp: choose_response_def split: if_splits)
  then show ?thesis
  proof cases
    case push
    with assms have "foldl (\<lambda>a l. pushbutton_line p m l a) (Inr (RSP_UNKNOWN, s)) (request_lines body)
        = Inr (r, s')"
      by (simp add: choose_response_def lines_loop_foldl)
    from pushbutton_fold_frame [OF this] show ?thesis by simp
  next
    case pass
    with assms have f: "foldl (\<lambda>a l. setpass_line p l a) (RSP_UNKNOWN, s) (request_lines body) = (r, s')"
      by (simp add: choose_response_def lines_loop_foldl)
    from setpass_fold [of p RSP_UNKNOWN s "request_lines body"] f
    obtain tab where "s' = s\<lparr>clients := tab\<rparr>" "length tab = length (clients s)"
      "map count tab = map count (clients s)" by auto
    then show ?thesis by simp
  next
    case other
    then show ?thesis by simp
  qed
qed


section \<open>Visit counters\<close>

text \<open>C10. For every request that is processed, the visit count of the record that
  \<open>add_IP_address\<close> hands back (the peer's own record, unchanged by the lookup when the peer
  is already in the table) and \<open>requests_processed\<close> both go up by exactly one, unless the
  request line classifies as the favicon request: then both stay as they are. No other
  record's count changes. The additions are those of a C \<open>long\<close>.\<close>

theorem request_counted_unless_favicon:
  assumes "process_client_request p m (addr, inp) s = Inr (acts, s')"
  shows "\<exists>ndx tab. add_IP_address addr (clients s) = Inr (ndx, tab) \<and>
           (addr \<in> ip_address ` set (take MAX_IP_ADDRESSES (clients s)) \<longrightarrow> tab = clients s) \<and>
           current_client s' = ndx \<and> ndx < length tab \<and>
           (if fst (read_request p inp) = REQ_FAVICON
            then map count (clients s') = map count tab \<and>
                 requests_processed s' = requests_processed s
            else map count (clients s') = (map count tab)[ndx := count (tab ! ndx) + 1] \<and>
                 requests_processed s' = requests_processed s + 1)"
proof -
  from assms obtain ndx tab where add: "add_IP_address addr (clients s) = Inr (ndx, tab)"
    by (cases "add_IP_address addr (clients s)") (auto simp: process_client_request_def)
  obtain rt body where rq: "read_request p inp = (rt, body)"
    by (cases "read_request p inp") auto
  define s1 where "s1 = s\<lparr>clients := tab, current_client := ndx\<rparr>"
  define s2 where "s2 = count_request rt s1"
  from assms add rq obtain r s3 where ch: "choose_response p m rt body s2 = Inr (r, s3)"
    and s': "s' = (if r \<noteq> RSP_NONE then s3\<lparr>web_status := WEB_AWAITING_CLIENT\<rparr> else s3)"
    by (cases "choose_response p m rt body s2")
       (auto simp: process_client_request_def s1_def s2_def generate_response_def split: if_splits)
  from choose_response_frame [OF ch]
  have k: "map count (clients s') = map count (clients s2)"
    "current_client s' = current_client s2" "requests_processed s' = requests_processed s2"
    by (simp_all add: s')
  have b: "ndx < length tab" using add_IP_address_bounds [OF add] by simp
  have known: "addr \<in> ip_address ` set (take MAX_IP_ADDRESSES (clients s)) \<Longrightarrow> tab = clients s"
    using add_IP_address_known [of addr "clients s"] add by auto
  have "current_client s' = ndx" using k by (simp add: s2_def s1_def count_request_def)
  moreover have "rt = REQ_FAVICON \<Longrightarrow>
      map count (clients s') = map count tab \<and> requests_processed s' = requests_processed s"
    using k by (simp add: s2_def s1_def count_request_def)
  moreover have "rt \<noteq> REQ_FAVICON \<Longrightarrow>
      map count (clients s') = (map count tab)[ndx := count (tab ! ndx) + 1] \<and>
      requests_processed s' = requests_processed s + 1"
    using k by (simp add: s2_def s1_def count_request_def map_update)
  ultimately show ?thesis using add rq b known by auto
qed


theorem request_counted_unless_favicon_witness:
  "(\<exists>acts s'. process_client_request spec_platform 5
            (7, http_request ''GET /LOG HTTP/1.1'' []) initial_state = Inr (acts, s') \<and>
        current_client s' = 24 \<and> map count (clients s') ! 24 = 2 \<and> requests_processed s' = 1) \<and>
   (\<exists>acts s'. process_client_request spec_platform 5
            (7, http_request ''GET /FAVICON.ICO HTTP/1.1'' []) initial_state = Inr (acts, s') \<and>
        current_client s' = 24 \<and> map count (clients s') ! 24 = 1 \<and> requests_processed s' = 0)"
proof -
  let ?tab = "(clients initial_state)[24 := \<lparr>ip_address = 7, count = 1, gave_password = False\<rparr>]"
  let ?log = "process_client_request spec_platform 5
            (7, http_request ''GET /LOG HTTP/1.1'' []) initial_state"
  let ?ico = "process_client_request spec_platform 5
            (7, http_request ''GET /FAVICON.ICO HTTP/1.1'' []) initial_state"
  have add: "add_IP_address 7 (clients initial_state) = Inr (24, ?tab)" by code_simp
  have c1: "(map count ?tab)[24 := count (?tab ! 24) + 1] ! 24 = 2" by code_simp
  have c2: "map count ?tab ! 24 = 1" by code_simp
  have c3: "requests_processed initial_state = 0" by code_simp
  have q1: "fst (read_request spec_platform (http_request ''GET /LOG HTTP/1.1'' [])) \<noteq> REQ_FAVICON"
    by code_simp
  have q2: "fst (read_request spec_platform (http_request ''GET /FAVICON.ICO HTTP/1.1'' [])) = REQ_FAVICON"
    by code_simp
  have "\<not> isl ?log" by code_simp
  then obtain acts1 s1 where p1: "?log = Inr (acts1, s1)"
    by (cases ?log) auto
  from request_counted_unless_favicon [OF p1]
  obtain ndx tab where a1: "add_IP_address 7 (clients initial_state) = Inr (ndx, tab)"
    and k1: "current_client s1 = ndx"
    and i1: "if fst (read_request spec_platform (http_request ''GET /LOG HTTP/1.1'' [])) = REQ_FAVICON
            then map count (clients s1) = map count tab \<and>
                 requests_processed s1 = requests_processed initial_state
            else map count (clients s1) = (map count tab)[ndx := count (tab ! ndx) + 1] \<and>
                 requests_processed s1 = requests_processed initial_state + 1"
    by blast
  from a1 have e1: "ndx = 24" "tab = ?tab" by (simp_all add: add)
  from i1 q1 have "map count (clients s1) = (map count tab)[ndx := count (tab ! ndx) + 1]"
    and "requests_processed s1 = requests_processed initial_state + 1"
    by (simp_all only: if_False)
  then have 1: "current_client s1 = 24 \<and> map count (clients s1) ! 24 = 2 \<and> requests_processed s1 = 1"
    using k1 c1 c3 by (simp add: e1)
  have "\<not> isl ?ico" by code_simp
  then obtain acts2 s2 where p2: "?ico = Inr (acts2, s2)"
    by (cases ?ico) auto
  from request_counted_unless_favicon [OF p2]
  obtain ndx' tab' where a2: "add_IP_address 7 (clients initial_state) = Inr (ndx', tab')"
    and k2: "current_client s2 = ndx'"
    and i2: "if fst (read_request spec_platform (http_request ''GET /FAVICON.ICO HTTP/1.1'' [])) = REQ_FAVICON
            then map count (clients s2) = map count tab' \<and>
                 requests_processed s2 = requests_processed initial_state
            else map count (clients s2) = (map count tab')[ndx' := count (tab' ! ndx') + 1] \<and>
                 requests_processed s2 = requests_processed initial_state + 1"
    by blast
  from a2 have e2: "ndx' = 24" "tab' = ?tab" by (simp_all add: add)
  from i2 q2 have "map count (clients s2) = map count tab'"
    and "requests_processed s2 = requests_processed initial_state"
    by (simp_all only: if_True)
  then have 2: "current_client s2 = 24 \<and> map count (clients s2) ! 24 = 1 \<and> requests_processed s2 = 0"
    using k2 c2 c3 by (simp add: e2)
  from p1 1 p2 2 show ?thesis by blast
qed


section \<open>The password post\<close>

text \<open>C5, as amended. A \<open>POST /setpass.html\<close> request: a body line matches when it carries
  \<open>pwd=\<close> followed by exactly the configured password; the record of the requesting peer has
  \<open>gave_password = true\<close> afterwards if and only if it had before or some body line matches.
  The response is the status page when the last body line matches, the password form when
  the body has lines and none matches, and the unknown-request page when the body has no
  line. (Nothing is said of the response when a line matches and a later one does not.)\<close>

theorem setpass_post:
  assumes add: "add_IP_address addr (clients s) = Inr (ndx, tab)"
    and rq: "read_request p inp = (REQ_SETPASS, body)"
  shows "(\<forall>l. scan_password p l =
              (fst (scan_key p l ''PWD='') \<and>
               c_string (snd (scan_key p l ''PWD='')) = ACTION_PASSWORD)) \<and>
         (\<exists>r s'. process_client_request p m (addr, inp) s = Inr ([Response r], s') \<and>
           gave_password (clients s' ! ndx) =
             (gave_password (tab ! ndx) \<or> (\<exists>l\<in>set (request_lines body). scan_password p l)) \<and>
           (request_lines body = [] \<longrightarrow> r = RSP_UNKNOWN) \<and>
           (request_lines body \<noteq> [] \<and> scan_password p (last (request_lines body))
              \<longrightarrow> r = RSP_STATUS) \<and>
           (request_lines body \<noteq> [] \<and> (\<forall>l\<in>set (request_lines body). \<not> scan_password p l)
              \<longrightarrow> r = RSP_ASKPASS))"
proof -
  let ?ls = "request_lines body"
  have exact: "\<forall>l. scan_password p l =
              (fst (scan_key p l ''PWD='') \<and>
               c_string (snd (scan_key p l ''PWD='')) = ACTION_PASSWORD)"
    by (simp add: scan_password_def check_password_def split: prod.splits)
  define s2 where "s2 = count_request REQ_SETPASS (s\<lparr>clients := tab, current_client := ndx\<rparr>)"
  have b: "ndx < length tab" using add_IP_address_bounds [OF add] by simp
  have cc: "current_client s2 = ndx" and len: "ndx < length (clients s2)"
    and gp: "gave_password (clients s2 ! ndx) = gave_password (tab ! ndx)"
    using b by (simp_all add: s2_def count_request_def)
  define r where "r = (if ?ls = [] then RSP_UNKNOWN
                       else if scan_password p (last ?ls) then RSP_STATUS else RSP_ASKPASS)"
  from setpass_fold [of p RSP_UNKNOWN s2 ?ls]
  obtain tab' where f: "foldl (\<lambda>a l. setpass_line p l a) (RSP_UNKNOWN, s2) ?ls = (r, s2\<lparr>clients := tab'\<rparr>)"
    and g: "gave_password (tab' ! ndx) = (gave_password (tab ! ndx) \<or> (\<exists>l\<in>set ?ls. scan_password p l))"
    using cc len gp unfolding r_def by auto
  have ne: "r \<noteq> RSP_NONE" by (simp add: r_def)
  have ch: "choose_response p m REQ_SETPASS body s2 = Inr (r, s2\<lparr>clients := tab'\<rparr>)"
    using f by (simp add: choose_response_def lines_loop_foldl)
  have "process_client_request p m (addr, inp) s =
          Inr ([Response r], s2\<lparr>clients := tab', web_status := WEB_AWAITING_CLIENT\<rparr>)"
    using add rq ch ne by (simp add: process_client_request_def s2_def [symmetric] generate_response_def)
  moreover have "request_lines body \<noteq> [] \<and> (\<forall>l\<in>set ?ls. \<not> scan_password p l) \<longrightarrow> r = RSP_ASKPASS"
    by (auto simp: r_def)
  ultimately have "\<exists>r s'. process_client_request p m (addr, inp) s = Inr ([Response r], s') \<and>
           gave_password (clients s' ! ndx) =
             (gave_password (tab ! ndx) \<or> (\<exists>l\<in>set (request_lines body). scan_password p l)) \<and>
           (request_lines body = [] \<longrightarrow> r = RSP_UNKNOWN) \<and>
           (request_lines body \<noteq> [] \<and> scan_password p (last (request_lines body))
              \<longrightarrow> r = RSP_STATUS) \<and>
           (request_lines body \<noteq> [] \<and> (\<forall>l\<in>set (request_lines body). \<not> scan_password p l)
              \<longrightarrow> r = RSP_ASKPASS)"
    using g by (auto simp: r_def)
  with exact show ?thesis by blast
qed


theorem setpass_post_witness:
  "(\<exists>s'. process_client_request spec_platform 5
            (7, http_request ''POST /SETPASS.HTML HTTP/1.1'' ''PWD=password'') initial_state
          = Inr ([Response RSP_STATUS], s') \<and> gave_password (clients s' ! 24)) \<and>
   (\<exists>s'. process_client_request spec_platform 5
            (7, http_request ''POST /SETPASS.HTML HTTP/1.1'' ''PWD=letmein'') initial_state
          = Inr ([Response RSP_ASKPASS], s') \<and> \<not> gave_password (clients s' ! 24)) \<and>
   (\<exists>s'. process_client_request spec_platform 5
            (7, http_request ''POST /SETPASS.HTML HTTP/1.1'' []) initial_state
          = Inr ([Response RSP_UNKNOWN], s') \<and> \<not> gave_password (clients s' ! 24))"
proof -
  let ?tab = "(clients initial_state)[24 := \<lparr>ip_address = 7, count = 1, gave_password = False\<rparr>]"
  have add: "add_IP_address 7 (clients initial_state) = Inr (24, ?tab)" by code_simp
  have gp: "\<not> gave_password (?tab ! 24)" by code_simp
  have rq1: "read_request spec_platform (http_request ''POST /SETPASS.HTML HTTP/1.1'' ''PWD=password'')
               = (REQ_SETPASS, ''PWD=password'')" by code_simp
  have l1: "request_lines ''PWD=password'' = [''PWD=password'']"
    and m1: "scan_password spec_platform ''PWD=password''" by code_simp+
  have rq2: "read_request spec_platform (http_request ''POST /SETPASS.HTML HTTP/1.1'' ''PWD=letmein'')
               = (REQ_SETPASS, ''PWD=letmein'')" by code_simp
  have l2: "request_lines ''PWD=letmein'' = [''PWD=letmein'']"
    and m2: "\<not> scan_password spec_platform ''PWD=letmein''" by code_simp+
  have rq3: "read_request spec_platform (http_request ''POST /SETPASS.HTML HTTP/1.1'' [])
               = (REQ_SETPASS, [])" by code_simp
  have l3: "request_lines [] = []" by code_simp
  from setpass_post [OF add rq1, of 5, THEN conjunct2] gp l1 m1
  have 1: "\<exists>s'. process_client_request spec_platform 5
            (7, http_request ''POST /SETPASS.HTML HTTP/1.1'' ''PWD=password'') initial_state
          = Inr ([Response RSP_STATUS], s') \<and> gave_password (clients s' ! 24)"
    by auto
  from setpass_post [OF add rq2, of 5, THEN conjunct2] gp l2 m2
  have 2: "\<exists>s'. process_client_request spec_platform 5
            (7, http_request ''POST /SETPASS.HTML HTTP/1.1'' ''PWD=letmein'') initial_state
          = Inr ([Response RSP_ASKPASS], s') \<and> \<not> gave_password (clients s' ! 24)"
    by auto
  from setpass_post [OF add rq3, of 5, THEN conjunct2] gp l3
  have 3: "\<exists>s'. process_client_request spec_platform 5
            (7, http_request ''POST /SETPASS.HTML HTTP/1.1'' []) initial_state
          = Inr ([Response RSP_UNKNOWN], s') \<and> \<not> gave_password (clients s' ! 24)"
    by auto
  from 1 2 3 show ?thesis by blast
qed



text \<open>The claim as stated fails on a body with no line (the response is the unknown-request
  page, not the password form) and on a body whose matching line is followed by another
  line (the peer is marked, yet the response is the password form).\<close>

theorem setpass_post_counterexample:
  "process_client_request spec_platform 5
      (7, http_request ''POST /SETPASS.HTML HTTP/1.1'' []) initial_state
    = Inr ([Response RSP_UNKNOWN],
           initial_state\<lparr>web_status := WEB_AWAITING_CLIENT,
             clients := (clients initial_state)
               [24 := \<lparr>ip_address = 7, count = 2, gave_password = False\<rparr>],
             current_client := 24, requests_processed := 1\<rparr>)
   \<and> process_client_request spec_platform 5
      (7, http_request ''POST /SETPASS.HTML HTTP/1.1'' (''PWD=password'' @ [CHR 0x0A] @ ''X=1''))
      initial_state
    = Inr ([Response RSP_ASKPASS],
           initial_state\<lparr>web_status := WEB_AWAITING_CLIENT,
             clients := (clients initial_state)
               [24 := \<lparr>ip_address = 7, count = 2, gave_password = True\<rparr>],
             current_client := 24, requests_processed := 1\<rparr>)"
  by code_simp



section \<open>The pushbutton post\<close>

lemma pushbutton_request_step:
  assumes st: "web_status s = WEB_AWAITING_CLIENT"
    and en: "web_enabled p e s" and wf: "wifi_status e = WL_CONNECTED"
    and cl: "client e = Some (addr, inp)"
    and add: "add_IP_address addr (clients s) = Inr (ndx, tab)"
    and rq: "read_request p inp = (REQ_PUSHBUTTON, body)"
  shows "process_web p e s =
    (case choose_response p (millis e) REQ_PUSHBUTTON body
            (count_request REQ_PUSHBUTTON
               (s\<lparr>processing_web := True, web_status := WEB_PROCESSING_REQUEST,
                  clients := tab, current_client := ndx\<rparr>)) of
       Inl f \<Rightarrow> Inl f
     | Inr (r, s3) \<Rightarrow>
         if r \<noteq> RSP_NONE
         then Inr ([Response r], s3\<lparr>web_status := WEB_AWAITING_CLIENT, processing_web := False\<rparr>)
         else Inr ([], s3\<lparr>processing_web := False\<rparr>))"
  using assms
  by (simp add: process_web_def awaiting_client_step_def process_client_request_def
        generate_response_def split: sum.splits)

text \<open>C1, as amended. A \<open>POST /pushbutton.html\<close> request taken in state
  \<open>WEB_AWAITING_CLIENT\<close> by an enabled call with the network joined. If the record of the
  requesting peer has \<open>gave_password = false\<close>, no button is queued, and the response is the
  password form when the body is longer than two bytes and has a line with a button field in
  range, the unknown-request page otherwise. If the record has \<open>gave_password = true\<close> and
  the body (longer than two bytes) has exactly one button field in range, \<open>button=i\<close>, then
  exactly button \<open>i\<close> is queued, no response is written in that call, the machine stays in
  \<open>WEB_PROCESSING_REQUEST\<close> with the deadline \<open>millis() + DELAYED_RSP_MSEC\<close>, and every later
  enabled call writes the status page as soon as \<open>millis()\<close> exceeds the deadline, and does
  nothing before.\<close>

theorem pushbutton_post:
  assumes st: "web_status s = WEB_AWAITING_CLIENT"
    and en: "web_enabled p e s" and wf: "wifi_status e = WL_CONNECTED"
    and cl: "client e = Some (addr, inp)"
    and add: "add_IP_address addr (clients s) = Inr (ndx, tab)"
    and rq: "read_request p inp = (REQ_PUSHBUTTON, body)"
  shows "if gave_password (tab ! ndx) then
           (\<forall>i. 2 < length body \<and> List.map_filter (scan_button p) (request_lines body) = [i] \<and>
                0 \<le> i \<and> i < int (length (button_webpushed s)) \<longrightarrow>
             (\<exists>s'. process_web p e s = Inr ([], s') \<and>
                button_webpushed s' = (button_webpushed s)[nat i := True] \<and>
                web_status s' = WEB_PROCESSING_REQUEST \<and> \<not> processing_web s' \<and>
                delayed_response s' \<and> delayed_sendtime s' = millis e + DELAYED_RSP_MSEC \<and>
                (\<forall>e'. web_enabled p e' s' \<longrightarrow>
                   process_web p e' s' =
                     (if delayed_sendtime s' < millis e'
                      then Inr ([Response RSP_STATUS],
                                s'\<lparr>delayed_response := False, web_status := WEB_AWAITING_CLIENT\<rparr>)
                      else Inr ([], s')))))
         else
           (\<exists>s'. process_web p e s =
                   Inr ([Response (if 2 < length body \<and>
                                      (\<exists>l\<in>set (request_lines body). scan_button p l \<noteq> None)
                                   then RSP_ASKPASS else RSP_UNKNOWN)], s') \<and>
                 button_webpushed s' = button_webpushed s \<and>
                 web_status s' = WEB_AWAITING_CLIENT)"
proof -
  define s2 where "s2 = count_request REQ_PUSHBUTTON
               (s\<lparr>processing_web := True, web_status := WEB_PROCESSING_REQUEST,
                  clients := tab, current_client := ndx\<rparr>)"
  note step = pushbutton_request_step [OF assms, folded s2_def]
  have b: "ndx < length tab" using add_IP_address_bounds [OF add] by simp
  have gp: "gave_password (clients s2 ! current_client s2) = gave_password (tab ! ndx)"
    and bw: "button_webpushed s2 = button_webpushed s"
    and ws: "web_status s2 = WEB_PROCESSING_REQUEST"
    using b by (simp_all add: s2_def count_request_def)
  show ?thesis
  proof (cases "gave_password (tab ! ndx)")
    case True
    have "\<exists>s'. process_web p e s = Inr ([], s') \<and>
                button_webpushed s' = (button_webpushed s)[nat i := True] \<and>
                web_status s' = WEB_PROCESSING_REQUEST \<and> \<not> processing_web s' \<and>
                delayed_response s' \<and> delayed_sendtime s' = millis e + DELAYED_RSP_MSEC \<and>
                (\<forall>e'. web_enabled p e' s' \<longrightarrow>
                   process_web p e' s' =
                     (if delayed_sendtime s' < millis e'
                      then Inr ([Response RSP_STATUS],
                                s'\<lparr>delayed_response := False, web_status := WEB_AWAITING_CLIENT\<rparr>)
                      else Inr ([], s')))"
      if h: "2 < length body" "List.map_filter (scan_button p) (request_lines body) = [i]"
            "0 \<le> i" "i < int (length (button_webpushed s))" for i
    proof -
      define s' where "s' = s2\<lparr>button_webpushed := (button_webpushed s2)[nat i := True],
                  delayed_response := True,
                  delayed_sendtime := millis e + DELAYED_RSP_MSEC, processing_web := False\<rparr>"
      have "choose_response p (millis e) REQ_PUSHBUTTON body s2 =
              Inr (RSP_NONE, s2\<lparr>button_webpushed := (button_webpushed s2)[nat i := True],
                  delayed_response := True,
                  delayed_sendtime := millis e + DELAYED_RSP_MSEC\<rparr>)"
        using h True gp bw
        by (simp add: choose_response_def lines_loop_foldl pushbutton_fold_one_button)
      then have 1: "process_web p e s = Inr ([], s')"
        using step by (simp add: s'_def)
      have 2: "process_web p e' s' =
                     (if delayed_sendtime s' < millis e'
                      then Inr ([Response RSP_STATUS],
                                s'\<lparr>delayed_response := False, web_status := WEB_AWAITING_CLIENT\<rparr>)
                      else Inr ([], s'))" if "web_enabled p e' s'" for e'
        using that ws
        by (simp add: process_web_def processing_request_step_def generate_response_def s'_def)
      show ?thesis
        using 1 2 bw ws by (intro exI [of _ s']) (simp add: s'_def)
    qed
    with True show ?thesis by simp
  next
    case False
    define r where "r = (if 2 < length body \<and> (\<exists>l\<in>set (request_lines body). scan_button p l \<noteq> None)
                                   then RSP_ASKPASS else RSP_UNKNOWN)"
    have "choose_response p (millis e) REQ_PUSHBUTTON body s2 = Inr (r, s2)"
      using False gp
      by (simp add: choose_response_def lines_loop_foldl pushbutton_fold_unauthorized r_def)
    moreover have "r \<noteq> RSP_NONE" by (simp add: r_def)
    ultimately have "process_web p e s =
        Inr ([Response r], s2\<lparr>web_status := WEB_AWAITING_CLIENT, processing_web := False\<rparr>)"
      using step by simp
    with False bw show ?thesis unfolding r_def by simp
  qed
qed


theorem pushbutton_post_witness:
  "\<exists>s'. process_web spec_platform
           (powered_env 5000 (Some (7, http_request ''POST /PUSHBUTTON.HTML HTTP/1.1'' ''BUTTON=2'')))
           (initial_state\<lparr>web_status := WEB_AWAITING_CLIENT,
              clients := (clients initial_state)
                [3 := \<lparr>ip_address = 7, count = 4, gave_password = True\<rparr>]\<rparr>) = Inr ([], s') \<and>
         button_webpushed s' = [False, False, True, False, False, False, False] \<and>
         web_status s' = WEB_PROCESSING_REQUEST \<and>
         delayed_sendtime s' = 6000 \<and>
         process_web spec_platform (powered_env 6000 None) s' = Inr ([], s') \<and>
         process_web spec_platform (powered_env 6001 None) s' =
           Inr ([Response RSP_STATUS],
                s'\<lparr>delayed_response := False, web_status := WEB_AWAITING_CLIENT\<rparr>)"
proof -
  let ?e = "powered_env 5000 (Some (7, http_request ''POST /PUSHBUTTON.HTML HTTP/1.1'' ''BUTTON=2''))"
  let ?s = "initial_state\<lparr>web_status := WEB_AWAITING_CLIENT,
              clients := (clients initial_state)
                [3 := \<lparr>ip_address = 7, count = 4, gave_password = True\<rparr>]\<rparr>"
  have st: "web_status ?s = WEB_AWAITING_CLIENT" by simp
  have en: "web_enabled spec_platform ?e ?s" by code_simp
  have wf: "wifi_status ?e = WL_CONNECTED" by (simp add: powered_env_def)
  have cl: "client ?e = Some (7, http_request ''POST /PUSHBUTTON.HTML HTTP/1.1'' ''BUTTON=2'')"
    by (simp add: powered_env_def)
  have add: "add_IP_address 7 (clients ?s) = Inr (3, clients ?s)" by code_simp
  have rq: "read_request spec_platform (http_request ''POST /PUSHBUTTON.HTML HTTP/1.1'' ''BUTTON=2'')
              = (REQ_PUSHBUTTON, ''BUTTON=2'')" by code_simp
  have gp: "gave_password (clients ?s ! 3)" by code_simp
  have one: "2 < length ''BUTTON=2'' \<and>
             List.map_filter (scan_button spec_platform) (request_lines ''BUTTON=2'') = [2] \<and>
             (0::int) \<le> 2 \<and> 2 < int (length (button_webpushed ?s))" by code_simp
  have bw: "(button_webpushed ?s)[nat 2 := True] = [False, False, True, False, False, False, False]"
    by code_simp
  have "if gave_password (clients ?s ! 3) then
           (\<forall>i. 2 < length ''BUTTON=2'' \<and>
                List.map_filter (scan_button spec_platform) (request_lines ''BUTTON=2'') = [i] \<and>
                0 \<le> i \<and> i < int (length (button_webpushed ?s)) \<longrightarrow>
             (\<exists>s'. process_web spec_platform ?e ?s = Inr ([], s') \<and>
                button_webpushed s' = (button_webpushed ?s)[nat i := True] \<and>
                web_status s' = WEB_PROCESSING_REQUEST \<and> \<not> processing_web s' \<and>
                delayed_response s' \<and> delayed_sendtime s' = millis ?e + DELAYED_RSP_MSEC \<and>
                (\<forall>e'. web_enabled spec_platform e' s' \<longrightarrow>
                   process_web spec_platform e' s' =
                     (if delayed_sendtime s' < millis e'
                      then Inr ([Response RSP_STATUS],
                                s'\<lparr>delayed_response := False, web_status := WEB_AWAITING_CLIENT\<rparr>)
                      else Inr ([], s')))))
         else
           (\<exists>s'. process_web spec_platform ?e ?s =
                   Inr ([Response (if 2 < length ''BUTTON=2'' \<and>
                                      (\<exists>l\<in>set (request_lines ''BUTTON=2'').
                                          scan_button spec_platform l \<noteq> None)
                                   then RSP_ASKPASS else RSP_UNKNOWN)], s') \<and>
                 button_webpushed s' = button_webpushed ?s \<and>
                 web_status s' = WEB_AWAITING_CLIENT)"
    by (rule pushbutton_post [OF st en wf cl add rq])
  with gp have "\<forall>i. 2 < length ''BUTTON=2'' \<and>
                List.map_filter (scan_button spec_platform) (request_lines ''BUTTON=2'') = [i] \<and>
                0 \<le> i \<and> i < int (length (button_webpushed ?s)) \<longrightarrow>
             (\<exists>s'. process_web spec_platform ?e ?s = Inr ([], s') \<and>
                button_webpushed s' = (button_webpushed ?s)[nat i := True] \<and>
                web_status s' = WEB_PROCESSING_REQUEST \<and> \<not> processing_web s' \<and>
                delayed_response s' \<and> delayed_sendtime s' = millis ?e + DELAYED_RSP_MSEC \<and>
                (\<forall>e'. web_enabled spec_platform e' s' \<longrightarrow>
                   process_web spec_platform e' s' =
                     (if delayed_sendtime s' < millis e'
                      then Inr ([Response RSP_STATUS],
                                s'\<lparr>delayed_response := False, web_status := WEB_AWAITING_CLIENT\<rparr>)
                      else Inr ([], s'))))"
    by (simp only: if_True)
  with one obtain s' where s': "process_web spec_platform ?e ?s = Inr ([], s')"
    "button_webpushed s' = (button_webpushed ?s)[nat 2 := True]"
    "web_status s' = WEB_PROCESSING_REQUEST" "\<not> processing_web s'"
    "delayed_sendtime s' = millis ?e + DELAYED_RSP_MSEC"
    and later: "\<And>e'. web_enabled spec_platform e' s' \<Longrightarrow>
                   process_web spec_platform e' s' =
                     (if delayed_sendtime s' < millis e'
                      then Inr ([Response RSP_STATUS],
                                s'\<lparr>delayed_response := False, web_status := WEB_AWAITING_CLIENT\<rparr>)
                      else Inr ([], s'))"
    by blast
  have dl: "delayed_sendtime s' = 6000"
    using s'(5) by (simp add: powered_env_def DELAYED_RSP_MSEC_def)
  have en': "web_enabled spec_platform (powered_env t None) s'" for t
    using s'(4)
    by (simp add: web_enabled_def HAVE_POWER_def powered_env_def time_less_def spec_platform_def
          POWER_ON_WEB_DELAY_SECS_def)
  have "process_web spec_platform (powered_env 6000 None) s' = Inr ([], s')"
    using later [OF en' [of 6000]] dl by (simp add: powered_env_def)
  moreover have "process_web spec_platform (powered_env 6001 None) s' =
           Inr ([Response RSP_STATUS],
                s'\<lparr>delayed_response := False, web_status := WEB_AWAITING_CLIENT\<rparr>)"
    using later [OF en' [of 6001]] dl by (simp add: powered_env_def)
  ultimately show ?thesis using s' dl bw by (intro exI [of _ s']) simp
qed

text \<open>The claim as stated fails where the body carries no button field: a peer that has not
  given the password gets the unknown-request page, not the password form.\<close>

theorem pushbutton_post_counterexample:
  "process_web spec_platform
      (powered_env 5000 (Some (7, http_request ''POST /PUSHBUTTON.HTML HTTP/1.1'' [])))
      (initial_state\<lparr>web_status := WEB_AWAITING_CLIENT\<rparr>)
    = Inr ([Response RSP_UNKNOWN],
           initial_state\<lparr>web_status := WEB_AWAITING_CLIENT,
             clients := (clients initial_state)
               [24 := \<lparr>ip_address = 7, count = 2, gave_password = False\<rparr>],
             current_client := 24, requests_processed := 1\<rparr>)
   \<and> process_web spec_platform
      (powered_env 5000 (Some (7, http_request ''POST /PUSHBUTTON.HTML HTTP/1.1'' ''COLOR=RED'')))
      (initial_state\<lparr>web_status := WEB_AWAITING_CLIENT\<rparr>)
    = Inr ([Response RSP_UNKNOWN],
           initial_state\<lparr>web_status := WEB_AWAITING_CLIENT,
             clients := (clients initial_state)
               [24 := \<lparr>ip_address = 7, count = 2, gave_password = False\<rparr>],
             current_client := 24, requests_processed := 1\<rparr>)"
  by code_simp


section \<open>Inbound requests before outbound triggers\<close>

lemma process_client_request_effects:
  assumes "process_client_request p m pclient s = Inr (acts, s')"
  shows "Ifttt_Trigger \<notin> set acts \<and> ifttt_do_trigger s' = ifttt_do_trigger s"
proof -
  from assms obtain ndx tab where add: "add_IP_address (fst pclient) (clients s) = Inr (ndx, tab)"
    by (cases "add_IP_address (fst pclient) (clients s)") (auto simp: process_client_request_def)
  obtain rt body where rq: "read_request p (snd pclient) = (rt, body)"
    by (cases "read_request p (snd pclient)") auto
  define s2 where "s2 = count_request rt (s\<lparr>clients := tab, current_client := ndx\<rparr>)"
  from assms add rq obtain r s3 where ch: "choose_response p m rt body s2 = Inr (r, s3)"
    and s': "s' = (if r \<noteq> RSP_NONE then s3\<lparr>web_status := WEB_AWAITING_CLIENT\<rparr> else s3)"
    and acts: "acts = (if r \<noteq> RSP_NONE then [Response r] else [])"
    by (cases "choose_response p m rt body s2")
       (auto simp: process_client_request_def s2_def generate_response_def split: if_splits)
  from choose_response_frame [OF ch] have "ifttt_do_trigger s3 = ifttt_do_trigger s2" by simp
  then show ?thesis by (simp add: s' acts s2_def count_request_def)
qed

text \<open>C8. In state \<open>WEB_AWAITING_CLIENT\<close> a call sends the queued trigger only when no
  client is waiting: with no client (the call enabled, the network joined) the trigger goes
  out exactly when \<open>ifttt_do_trigger\<close> is set; with a client waiting the call processes
  the client's request, sends no trigger and leaves \<open>ifttt_do_trigger\<close> as it was.\<close>

theorem trigger_only_without_client:
  assumes st: "web_status s = WEB_AWAITING_CLIENT"
    and step: "process_web p e s = Inr (acts, s')"
  shows "(Ifttt_Trigger \<in> set acts \<longrightarrow> client e = None) \<and>
         (web_enabled p e s \<and> wifi_status e = WL_CONNECTED \<and> client e = None \<longrightarrow>
            acts = (if ifttt_do_trigger s then [Ifttt_Trigger] else [])) \<and>
         (web_enabled p e s \<and> wifi_status e = WL_CONNECTED \<and> client e \<noteq> None \<longrightarrow>
            (\<exists>s2. process_client_request p (millis e) (the (client e))
                     (s\<lparr>processing_web := True, web_status := WEB_PROCESSING_REQUEST\<rparr>) = Inr (acts, s2) \<and>
                  s' = s2\<lparr>processing_web := False\<rparr>) \<and>
            Ifttt_Trigger \<notin> set acts \<and> ifttt_do_trigger s' = ifttt_do_trigger s)"
proof (cases "web_enabled p e s \<and> wifi_status e = WL_CONNECTED")
  case False
  with st step have "Ifttt_Trigger \<notin> set acts"
    by (auto simp: process_web_def awaiting_client_step_def split: if_splits)
  with False show ?thesis by auto
next
  case True
  show ?thesis
  proof (cases "client e")
    case None
    with True st step show ?thesis
      by (auto simp: process_web_def awaiting_client_step_def split: if_splits)
  next
    case (Some pclient)
    let ?s1 = "s\<lparr>processing_web := True, web_status := WEB_PROCESSING_REQUEST\<rparr>"
    from True st step Some obtain s2 where
      pcr: "process_client_request p (millis e) pclient ?s1 = Inr (acts, s2)"
      and s': "s' = s2\<lparr>processing_web := False\<rparr>"
      by (cases "process_client_request p (millis e) pclient ?s1")
         (auto simp: process_web_def awaiting_client_step_def)
    from process_client_request_effects [OF pcr]
    have "Ifttt_Trigger \<notin> set acts" "ifttt_do_trigger s' = ifttt_do_trigger s"
      by (simp_all add: s')
    with Some pcr s' show ?thesis by auto
  qed
qed

theorem trigger_only_without_client_witness:
  "(\<exists>s'. process_web spec_platform (powered_env 5000 None)
           (initial_state\<lparr>web_status := WEB_AWAITING_CLIENT, ifttt_do_trigger := True\<rparr>)
         = Inr ([Ifttt_Trigger], s')) \<and>
   (\<exists>s'. process_web spec_platform
           (powered_env 5000 (Some (7, http_request ''GET / HTTP/1.1'' [])))
           (initial_state\<lparr>web_status := WEB_AWAITING_CLIENT, ifttt_do_trigger := True\<rparr>)
         = Inr ([Response RSP_STATUS], s') \<and> ifttt_do_trigger s')"
proof -
  let ?s = "initial_state\<lparr>web_status := WEB_AWAITING_CLIENT, ifttt_do_trigger := True\<rparr>"
  let ?e1 = "powered_env 5000 None"
  let ?e2 = "powered_env 5000 (Some (7, http_request ''GET / HTTP/1.1'' []))"
  have st: "web_status ?s = WEB_AWAITING_CLIENT" by simp
  have t: "ifttt_do_trigger ?s" by simp
  have en1: "web_enabled spec_platform ?e1 ?s \<and> wifi_status ?e1 = WL_CONNECTED \<and> client ?e1 = None"
    by code_simp
  have en2: "web_enabled spec_platform ?e2 ?s \<and> wifi_status ?e2 = WL_CONNECTED \<and> client ?e2 \<noteq> None"
    by code_simp
  have "\<not> isl (process_web spec_platform ?e1 ?s)" by code_simp
  then obtain a1 s1 where p1: "process_web spec_platform ?e1 ?s = Inr (a1, s1)"
    by (cases "process_web spec_platform ?e1 ?s") auto
  from trigger_only_without_client [OF st p1, THEN conjunct2, THEN conjunct1] en1
  have "a1 = (if ifttt_do_trigger ?s then [Ifttt_Trigger] else [])" by (rule mp)
  then have "a1 = [Ifttt_Trigger]" by simp
  with p1 have 1: "\<exists>s'. process_web spec_platform ?e1 ?s = Inr ([Ifttt_Trigger], s')" by blast
  have a2: "map_sum id fst (process_web spec_platform ?e2 ?s) = Inr [Response RSP_STATUS]"
    by code_simp
  then obtain s2 where p2: "process_web spec_platform ?e2 ?s = Inr ([Response RSP_STATUS], s2)"
    by (cases "process_web spec_platform ?e2 ?s") auto
  from trigger_only_without_client [OF st p2, THEN conjunct2, THEN conjunct2] en2
  have "ifttt_do_trigger s2 = ifttt_do_trigger ?s" by blast
  then have "ifttt_do_trigger s2" by simp
  with p2 have 2: "\<exists>s'. process_web spec_platform ?e2 ?s = Inr ([Response RSP_STATUS], s') \<and>
      ifttt_do_trigger s'" by blast
  from 1 2 show ?thesis by blast
qed


section \<open>Association failures and module resets\<close>

lemma small_word_cases:
  assumes "k < 3"
  shows "(MAX_CONNECT_ATTEMPTS \<le>s (of_nat k + 1 :: 32 word)) = (k = 2)"
proof -
  from assms consider "k = 0" | "k = 1" | "k = 2" by linarith
  then show ?thesis
    by cases (simp_all add: MAX_CONNECT_ATTEMPTS_def word_sle_eq)
qed

lemma step_without_join:
  assumes inv: "attempts_inv s k" and nj: "\<not> assoc_succeeded p e s"
  shows "\<exists>acts s'. process_web p e s = Inr (acts, s') \<and>
           (if assoc_failed p e s
            then attempts_inv s' (Suc k mod 3) \<and>
                 wifi_resets s' = wifi_resets s + of_nat (Suc k div 3) \<and>
                 count_list acts Wifi_Reset = Suc k div 3 \<and>
                 web_status s' = WEB_NOT_CONNECTED \<and>
                 next_connect_time s' = now e + CONNECT_DELAY_SECS
            else attempts_inv s' k \<and> wifi_resets s' = wifi_resets s \<and>
                 count_list acts Wifi_Reset = 0)"
proof -
  from inv have k: "k < 3" by (simp add: attempts_inv_def)
  show ?thesis
  proof (cases "web_enabled p e s")
    case False
    then have "process_web p e s = Inr ([], s\<lparr>processing_web := False\<rparr>)"
      by (simp add: process_web_def)
    moreover have "\<not> assoc_failed p e s" using False by (simp add: assoc_failed_def)
    ultimately show ?thesis using inv by (simp add: attempts_inv_def)
  next
    case en: True
    from inv consider
      (idle) "web_status s = WEB_NOT_CONNECTED" "connect_attempts s = of_nat k"
      | (wait) "web_status s = WEB_AWAITING_CONNECTION" "connect_attempts s = of_nat k + 1"
      by (auto simp: attempts_inv_def)
    then show ?thesis
    proof cases
      case idle
      then have nf: "\<not> assoc_failed p e s" by (simp add: assoc_failed_def)
      show ?thesis
        using en idle k nf
        by (simp add: process_web_def not_connected_step_def attempts_inv_def Let_def)
    next
      case wait
      show ?thesis
      proof (cases "wifi_status e = WL_IDLE_STATUS")
        case True
        then have nf: "\<not> assoc_failed p e s" by (simp add: assoc_failed_def)
        show ?thesis
          using en wait k nf True
          by (simp add: process_web_def awaiting_connection_step_def attempts_inv_def Let_def)
      next
        case False
        from nj en wait have nc: "wifi_status e \<noteq> WL_CONNECTED"
          by (simp add: assoc_succeeded_def)
        with False en wait have f: "assoc_failed p e s" by (simp add: assoc_failed_def)
        have step: "process_web p e s =
            Inr (fst (connect_failed e (s\<lparr>processing_web := True\<rparr>)),
                 (snd (connect_failed e (s\<lparr>processing_web := True\<rparr>)))\<lparr>processing_web := False\<rparr>)"
          using en wait False nc
          by (cases "wifi_status e")
             (simp_all add: process_web_def awaiting_connection_step_def Let_def split: prod.splits)
        show ?thesis
        proof (cases "k = 2")
          case True
          then show ?thesis
            using f step wait small_word_cases [OF k]
            by (simp add: connect_failed_def attempts_inv_def)
        next
          case False
          with k have "Suc k < 3" by simp
          then have "Suc k mod 3 = Suc k" "Suc k div 3 = 0" by simp_all
          with False show ?thesis
            using f step wait small_word_cases [OF k] k
            by (simp add: connect_failed_def attempts_inv_def)
        qed
      qed
    qed
  qed
qed

lemma run_without_join:
  assumes "attempts_inv s k" and "never_joined p es s"
  shows "\<exists>acts s'. run_web p es s = Inr (acts, s') \<and>
           attempts_inv s' ((k + failures p es s) mod 3) \<and>
           wifi_resets s' = wifi_resets s + of_nat ((k + failures p es s) div 3) \<and>
           count_list acts Wifi_Reset = (k + failures p es s) div 3"
  using assms
proof (induction es arbitrary: s k)
  case Nil
  then show ?case by (simp add: attempts_inv_def)
next
  case (Cons e es)
  from Cons.prems have nj: "\<not> assoc_succeeded p e s" by simp
  from step_without_join [OF Cons.prems(1) nj]
  obtain acts1 s1 where st: "process_web p e s = Inr (acts1, s1)"
    and eff: "if assoc_failed p e s
            then attempts_inv s1 (Suc k mod 3) \<and>
                 wifi_resets s1 = wifi_resets s + of_nat (Suc k div 3) \<and>
                 count_list acts1 Wifi_Reset = Suc k div 3
            else attempts_inv s1 k \<and> wifi_resets s1 = wifi_resets s \<and>
                 count_list acts1 Wifi_Reset = 0"
    by (auto split: if_splits)
  from Cons.prems st have nj': "never_joined p es s1" by simp
  define f where "f = failures p es s1"
  have k: "k < 3" using Cons.prems(1) by (simp add: attempts_inv_def)
  show ?case
  proof (cases "assoc_failed p e s")
    case True
    with eff have inv1: "attempts_inv s1 (Suc k mod 3)"
      and r1: "wifi_resets s1 = wifi_resets s + of_nat (Suc k div 3)"
      and c1: "count_list acts1 Wifi_Reset = Suc k div 3" by simp_all
    from Cons.IH [OF inv1 nj', folded f_def]
    obtain acts2 s2 where run: "run_web p es s1 = Inr (acts2, s2)"
      and inv2: "attempts_inv s2 ((Suc k mod 3 + f) mod 3)"
      and r2: "wifi_resets s2 = wifi_resets s1 + of_nat ((Suc k mod 3 + f) div 3)"
      and c2: "count_list acts2 Wifi_Reset = (Suc k mod 3 + f) div 3" by blast
    have fl: "failures p (e # es) s = Suc f" using True st by (simp add: f_def)
    have a1: "(Suc k mod 3 + f) mod 3 = (k + Suc f) mod 3" by presburger
    have a2: "Suc k div 3 + (Suc k mod 3 + f) div 3 = (k + Suc f) div 3" by presburger
    have "wifi_resets s2 = wifi_resets s + of_nat (Suc k div 3 + (Suc k mod 3 + f) div 3)"
      using r1 r2 by simp
    moreover have "count_list (acts1 @ acts2) Wifi_Reset = Suc k div 3 + (Suc k mod 3 + f) div 3"
      using c1 c2 by simp
    moreover have "run_web p (e # es) s = Inr (acts1 @ acts2, s2)" using st run by simp
    ultimately show ?thesis
      using inv2 by (simp add: fl a1 a2 del: failures.simps run_web.simps)
  next
    case False
    with eff have inv1: "attempts_inv s1 k"
      and r1: "wifi_resets s1 = wifi_resets s"
      and c1: "count_list acts1 Wifi_Reset = 0" by simp_all
    from Cons.IH [OF inv1 nj', folded f_def]
    obtain acts2 s2 where run: "run_web p es s1 = Inr (acts2, s2)"
      and inv2: "attempts_inv s2 ((k + f) mod 3)"
      and r2: "wifi_resets s2 = wifi_resets s1 + of_nat ((k + f) div 3)"
      and c2: "count_list acts2 Wifi_Reset = (k + f) div 3" by blast
    have fl: "failures p (e # es) s = f" using False st by (simp add: f_def)
    have "run_web p (e # es) s = Inr (acts1 @ acts2, s2)" using st run by simp
    then show ?thesis
      using inv2 r1 r2 c1 c2 by (simp add: fl del: failures.simps run_web.simps)
  qed
qed


lemma assoc_failed_step:
  assumes "assoc_failed p e s"
  shows "\<exists>acts s'. process_web p e s = Inr (acts, s') \<and> web_status s' = WEB_NOT_CONNECTED \<and>
           next_connect_time s' = now e + CONNECT_DELAY_SECS \<and>
           wifi_connectfails s' = wifi_connectfails s + 1"
proof -
  from assms have en: "web_enabled p e s" and w: "web_status s = WEB_AWAITING_CONNECTION"
    and nc: "wifi_status e \<noteq> WL_CONNECTED" and ni: "wifi_status e \<noteq> WL_IDLE_STATUS"
    by (simp_all add: assoc_failed_def)
  have "process_web p e s =
            Inr (fst (connect_failed e (s\<lparr>processing_web := True\<rparr>)),
                 (snd (connect_failed e (s\<lparr>processing_web := True\<rparr>)))\<lparr>processing_web := False\<rparr>)"
    using en w nc ni
    by (cases "wifi_status e")
       (simp_all add: process_web_def awaiting_connection_step_def Let_def split: prod.splits)
  then show ?thesis by (simp add: connect_failed_def Let_def split: prod.splits)
qed

text \<open>C6. From \<open>WEB_NOT_CONNECTED\<close> with \<open>connect_attempts = 0\<close>, over any sequence of calls
  in which no association attempt succeeds, the module has been reset once for every
  \<open>MAX_CONNECT_ATTEMPTS\<close> failed attempts, and the attempt counter holds the number of
  failures since the last reset (plus one while an attempt is pending). So after exactly
  \<open>MAX_CONNECT_ATTEMPTS\<close> failures there has been exactly one reset and the counter is zero,
  and with fewer failures there has been none. Each failure sets
  \<open>next_connect_time = now() + CONNECT_DELAY_SECS\<close> and returns to \<open>WEB_NOT_CONNECTED\<close>.\<close>

theorem connect_failures_reset_module:
  "(web_status s = WEB_NOT_CONNECTED \<and> connect_attempts s = 0 \<and> never_joined p es s \<longrightarrow>
      (\<exists>acts s'. run_web p es s = Inr (acts, s') \<and>
         wifi_resets s' = wifi_resets s + of_nat (failures p es s div unat MAX_CONNECT_ATTEMPTS) \<and>
         count_list acts Wifi_Reset = failures p es s div unat MAX_CONNECT_ATTEMPTS \<and>
         (web_status s' = WEB_NOT_CONNECTED \<and>
            connect_attempts s' = of_nat (failures p es s mod unat MAX_CONNECT_ATTEMPTS) \<or>
          web_status s' = WEB_AWAITING_CONNECTION \<and>
            connect_attempts s' = of_nat (failures p es s mod unat MAX_CONNECT_ATTEMPTS) + 1) \<and>
         (failures p es s < unat MAX_CONNECT_ATTEMPTS \<longrightarrow>
            wifi_resets s' = wifi_resets s \<and> count_list acts Wifi_Reset = 0) \<and>
         (failures p es s = unat MAX_CONNECT_ATTEMPTS \<longrightarrow>
            wifi_resets s' = wifi_resets s + 1 \<and> count_list acts Wifi_Reset = 1 \<and>
            (web_status s' = WEB_NOT_CONNECTED \<longrightarrow> connect_attempts s' = 0)))) \<and>
   (assoc_failed p e s \<longrightarrow>
      (\<exists>acts s'. process_web p e s = Inr (acts, s') \<and> web_status s' = WEB_NOT_CONNECTED \<and>
         next_connect_time s' = now e + CONNECT_DELAY_SECS \<and>
         wifi_connectfails s' = wifi_connectfails s + 1))"
proof (intro conjI impI)
  assume a: "web_status s = WEB_NOT_CONNECTED \<and> connect_attempts s = 0 \<and> never_joined p es s"
  then have inv: "attempts_inv s 0" by (simp add: attempts_inv_def)
  have m: "unat MAX_CONNECT_ATTEMPTS = 3" by (simp add: MAX_CONNECT_ATTEMPTS_def)
  define f where "f = failures p es s"
  from run_without_join [OF inv, of p es] a
  obtain acts s' where run: "run_web p es s = Inr (acts, s')"
    and i: "attempts_inv s' (f mod 3)"
    and r: "wifi_resets s' = wifi_resets s + of_nat (f div 3)"
    and c: "count_list acts Wifi_Reset = f div 3"
    unfolding f_def by auto
  have st: "web_status s' = WEB_NOT_CONNECTED \<and> connect_attempts s' = of_nat (f mod 3) \<or>
            web_status s' = WEB_AWAITING_CONNECTION \<and> connect_attempts s' = of_nat (f mod 3) + 1"
    using i by (simp add: attempts_inv_def)
  have few: "f < 3 \<longrightarrow> wifi_resets s' = wifi_resets s \<and> count_list acts Wifi_Reset = 0"
    using r c by simp
  have three: "f = 3 \<longrightarrow> wifi_resets s' = wifi_resets s + 1 \<and> count_list acts Wifi_Reset = 1 \<and>
            (web_status s' = WEB_NOT_CONNECTED \<longrightarrow> connect_attempts s' = 0)"
    using r c st by auto
  show "\<exists>acts s'. run_web p es s = Inr (acts, s') \<and>
         wifi_resets s' = wifi_resets s + of_nat (failures p es s div unat MAX_CONNECT_ATTEMPTS) \<and>
         count_list acts Wifi_Reset = failures p es s div unat MAX_CONNECT_ATTEMPTS \<and>
         (web_status s' = WEB_NOT_CONNECTED \<and>
            connect_attempts s' = of_nat (failures p es s mod unat MAX_CONNECT_ATTEMPTS) \<or>
          web_status s' = WEB_AWAITING_CONNECTION \<and>
            connect_attempts s' = of_nat (failures p es s mod unat MAX_CONNECT_ATTEMPTS) + 1) \<and>
         (failures p es s < unat MAX_CONNECT_ATTEMPTS \<longrightarrow>
            wifi_resets s' = wifi_resets s \<and> count_list acts Wifi_Reset = 0) \<and>
         (failures p es s = unat MAX_CONNECT_ATTEMPTS \<longrightarrow>
            wifi_resets s' = wifi_resets s + 1 \<and> count_list acts Wifi_Reset = 1 \<and>
            (web_status s' = WEB_NOT_CONNECTED \<longrightarrow> connect_attempts s' = 0))"
    unfolding m f_def [symmetric]
    using run r c st few three by (intro exI [of _ acts] exI [of _ s']) blast
next
  assume "assoc_failed p e s"
  then show "\<exists>acts s'. process_web p e s = Inr (acts, s') \<and> web_status s' = WEB_NOT_CONNECTED \<and>
         next_connect_time s' = now e + CONNECT_DELAY_SECS \<and>
         wifi_connectfails s' = wifi_connectfails s + 1"
    by (rule assoc_failed_step)
qed

theorem connect_failures_reset_module_witness:
  "(\<exists>acts s'.
      process_web spec_platform
        ((powered_env 0 None)\<lparr>now := 1001, wifi_status := WL_CONNECT_FAILED\<rparr>)
        (initial_state\<lparr>web_status := WEB_AWAITING_CONNECTION, connect_attempts := 1\<rparr>)
        = Inr (acts, s') \<and>
      web_status s' = WEB_NOT_CONNECTED \<and> next_connect_time s' = 1011) \<and>
   (\<exists>acts s'.
      run_web spec_platform
        (map (\<lambda>t. (powered_env 0 None)\<lparr>now := t, wifi_status := WL_CONNECT_FAILED\<rparr>)
           [1000, 1001, 1005, 1011, 1012, 1022, 1023]) initial_state = Inr (acts, s') \<and>
      wifi_resets s' = 1 \<and> count_list acts Wifi_Reset = 1 \<and>
      web_status s' = WEB_NOT_CONNECTED \<and> connect_attempts s' = 0) \<and>
   (\<exists>acts s'.
      run_web spec_platform
        (map (\<lambda>t. (powered_env 0 None)\<lparr>now := t, wifi_status := WL_CONNECT_FAILED\<rparr>)
           [1000, 1001, 1005, 1011, 1012]) initial_state = Inr (acts, s') \<and>
      wifi_resets s' = 0 \<and> count_list acts Wifi_Reset = 0)"
proof -
  let ?e = "(powered_env 0 None)\<lparr>now := 1001, wifi_status := WL_CONNECT_FAILED\<rparr>"
  let ?s = "initial_state\<lparr>web_status := WEB_AWAITING_CONNECTION, connect_attempts := 1\<rparr>"
  have af: "assoc_failed spec_platform ?e ?s" by code_simp
  have nw: "now ?e + CONNECT_DELAY_SECS = 1011" by code_simp
  from connect_failures_reset_module [THEN conjunct2, rule_format, OF af]
  have one: "\<exists>acts s'. process_web spec_platform ?e ?s = Inr (acts, s') \<and>
      web_status s' = WEB_NOT_CONNECTED \<and> next_connect_time s' = 1011"
    unfolding nw by blast
  let ?es = "map (\<lambda>t. (powered_env 0 None)\<lparr>now := t, wifi_status := WL_CONNECT_FAILED\<rparr>)
           [1000, 1001, 1005, 1011, 1012, 1022, 1023]"
  have h: "web_status initial_state = WEB_NOT_CONNECTED \<and> connect_attempts initial_state = 0 \<and>
           never_joined spec_platform ?es initial_state"
    by code_simp
  have f: "failures spec_platform ?es initial_state = 3" by code_simp
  have m: "unat MAX_CONNECT_ATTEMPTS = 3" by code_simp
  have r0: "wifi_resets initial_state = 0" by code_simp
  have fin: "map_sum id (\<lambda>r. web_status (snd r)) (run_web spec_platform ?es initial_state)
               = Inr WEB_NOT_CONNECTED"
    by code_simp
  from connect_failures_reset_module [THEN conjunct1, rule_format, OF h]
  obtain acts s' where run: "run_web spec_platform ?es initial_state = Inr (acts, s')"
    and r: "wifi_resets s' = wifi_resets initial_state +
              of_nat (failures spec_platform ?es initial_state div unat MAX_CONNECT_ATTEMPTS)"
    and c: "count_list acts Wifi_Reset =
              failures spec_platform ?es initial_state div unat MAX_CONNECT_ATTEMPTS"
    and a: "web_status s' = WEB_NOT_CONNECTED \<and>
            connect_attempts s' =
              of_nat (failures spec_platform ?es initial_state mod unat MAX_CONNECT_ATTEMPTS) \<or>
          web_status s' = WEB_AWAITING_CONNECTION \<and>
            connect_attempts s' =
              of_nat (failures spec_platform ?es initial_state mod unat MAX_CONNECT_ATTEMPTS) + 1"
    by blast
  from fin run have st: "web_status s' = WEB_NOT_CONNECTED" by simp
  from a have "connect_attempts s' = 0" unfolding f m st by simp
  moreover from r have "wifi_resets s' = 1" unfolding f m r0 by simp
  moreover from c have "count_list acts Wifi_Reset = 1" unfolding f m by simp
  ultimately have "\<exists>acts s'. run_web spec_platform ?es initial_state = Inr (acts, s') \<and>
      wifi_resets s' = 1 \<and> count_list acts Wifi_Reset = 1 \<and>
      web_status s' = WEB_NOT_CONNECTED \<and> connect_attempts s' = 0"
    using run st by blast
  note three = this
  let ?es2 = "map (\<lambda>t. (powered_env 0 None)\<lparr>now := t, wifi_status := WL_CONNECT_FAILED\<rparr>)
           [1000, 1001, 1005, 1011, 1012]"
  have h2: "web_status initial_state = WEB_NOT_CONNECTED \<and> connect_attempts initial_state = 0 \<and>
           never_joined spec_platform ?es2 initial_state"
    by code_simp
  have f2: "failures spec_platform ?es2 initial_state < unat MAX_CONNECT_ATTEMPTS" by code_simp
  from connect_failures_reset_module [THEN conjunct1, rule_format, OF h2]
  obtain acts2 s2 where run2: "run_web spec_platform ?es2 initial_state = Inr (acts2, s2)"
    and few: "failures spec_platform ?es2 initial_state < unat MAX_CONNECT_ATTEMPTS \<longrightarrow>
            wifi_resets s2 = wifi_resets initial_state \<and> count_list acts2 Wifi_Reset = 0"
    by blast
  from few f2 have "wifi_resets s2 = wifi_resets initial_state \<and> count_list acts2 Wifi_Reset = 0"
    by (rule mp)
  then have "wifi_resets s2 = 0 \<and> count_list acts2 Wifi_Reset = 0" unfolding r0 .
  with run2 have two: "\<exists>acts s'. run_web spec_platform ?es2 initial_state = Inr (acts, s') \<and>
      wifi_resets s' = 0 \<and> count_list acts Wifi_Reset = 0" by blast
  from one three two show ?thesis by blast
qed


section \<open>The retry deadline\<close>

lemma choose_response_web_status:
  assumes "choose_response p m rt body s = Inr (r, s')"
  shows "web_status s' = web_status s"
proof -
  consider (push) "rt = REQ_PUSHBUTTON" "2 < length body"
    | (pass) "rt = REQ_SETPASS"
    | (other) "s' = s"
    using assms by (auto simp: choose_response_def split: if_splits)
  then show ?thesis
  proof cases
    case push
    with assms have "foldl (\<lambda>a l. pushbutton_line p m l a) (Inr (RSP_UNKNOWN, s)) (request_lines body)
        = Inr (r, s')"
      by (simp add: choose_response_def lines_loop_foldl)
    from pushbutton_fold_frame [OF this] show ?thesis by simp
  next
    case pass
    with assms have f: "foldl (\<lambda>a l. setpass_line p l a) (RSP_UNKNOWN, s) (request_lines body) = (r, s')"
      by (simp add: choose_response_def lines_loop_foldl)
    from setpass_fold [of p RSP_UNKNOWN s "request_lines body"] f
    obtain tab where "s' = s\<lparr>clients := tab\<rparr>" by auto
    then show ?thesis by simp
  next
    case other
    then show ?thesis by simp
  qed
qed

lemma process_client_request_outcome:
  assumes "process_client_request p m pclient s = Inr (acts, s')"
  shows "acts = [] \<and> web_status s' = web_status s \<or>
         (\<exists>r. acts = [Response r]) \<and> web_status s' = WEB_AWAITING_CLIENT"
proof -
  from assms obtain ndx tab where add: "add_IP_address (fst pclient) (clients s) = Inr (ndx, tab)"
    by (cases "add_IP_address (fst pclient) (clients s)") (auto simp: process_client_request_def)
  obtain rt body where rq: "read_request p (snd pclient) = (rt, body)"
    by (cases "read_request p (snd pclient)") auto
  define s2 where "s2 = count_request rt (s\<lparr>clients := tab, current_client := ndx\<rparr>)"
  from assms add rq obtain r s3 where ch: "choose_response p m rt body s2 = Inr (r, s3)"
    and s': "s' = (if r \<noteq> RSP_NONE then s3\<lparr>web_status := WEB_AWAITING_CLIENT\<rparr> else s3)"
    and acts: "acts = (if r \<noteq> RSP_NONE then [Response r] else [])"
    by (cases "choose_response p m rt body s2")
       (auto simp: process_client_request_def s2_def generate_response_def split: if_splits)
  from choose_response_web_status [OF ch] have "web_status s3 = web_status s"
    by (simp add: s2_def count_request_def)
  then show ?thesis by (simp add: s' acts)
qed

text \<open>What a call can do to the connection state.\<close>

lemma process_web_transitions:
  assumes "process_web p e s = Inr (acts, s')"
  shows "(web_status s' = WEB_AWAITING_CONNECTION \<and> web_status s \<noteq> WEB_AWAITING_CONNECTION \<or>
          Wifi_Begin \<in> set acts \<longrightarrow>
            web_status s = WEB_NOT_CONNECTED \<and> time_le p (next_connect_time s) (now e) \<and>
            acts = [Wifi_Begin]) \<and>
         (web_status s' = WEB_NOT_CONNECTED \<and> web_status s \<noteq> WEB_NOT_CONNECTED \<longrightarrow>
            next_connect_time s' = now e + CONNECT_DELAY_SECS)"
proof (cases "web_enabled p e s")
  case False
  with assms show ?thesis by (auto simp: process_web_def)
next
  case en: True
  show ?thesis
  proof (cases "web_status s")
    case WEB_NOT_CONNECTED
    with en assms show ?thesis
      by (auto simp: process_web_def not_connected_step_def Let_def split: if_splits)
  next
    case WEB_AWAITING_CONNECTION
    with en assms show ?thesis
      by (cases "wifi_status e")
         (auto simp: process_web_def awaiting_connection_step_def connect_failed_def Let_def
               split: if_splits)
  next
    case WEB_AWAITING_CLIENT
    show ?thesis
    proof (cases "wifi_status e = WL_CONNECTED \<and> client e \<noteq> None")
      case False
      then consider "wifi_status e \<noteq> WL_CONNECTED" | "wifi_status e = WL_CONNECTED" "client e = None"
        by blast
      then show ?thesis
        using en assms WEB_AWAITING_CLIENT
        by cases (auto simp: process_web_def awaiting_client_step_def Let_def split: if_splits)
    next
      case True
      then obtain pclient where c: "client e = Some pclient" by auto
      let ?s1 = "s\<lparr>processing_web := True, web_status := WEB_PROCESSING_REQUEST\<rparr>"
      from True c en assms WEB_AWAITING_CLIENT obtain s2 where
        pcr: "process_client_request p (millis e) pclient ?s1 = Inr (acts, s2)"
        and s': "s' = s2\<lparr>processing_web := False\<rparr>"
        by (cases "process_client_request p (millis e) pclient ?s1")
           (auto simp: process_web_def awaiting_client_step_def)
      from process_client_request_outcome [OF pcr] s' WEB_AWAITING_CLIENT
      show ?thesis by auto
    qed
  next
    case WEB_PROCESSING_REQUEST
    with en assms show ?thesis
      by (auto simp: process_web_def processing_request_step_def generate_response_def Let_def
            split: if_splits)
  qed
qed

lemma run_before_deadline:
  assumes "web_status s = WEB_NOT_CONNECTED"
    and "\<forall>e\<in>set es. \<not> time_le p (next_connect_time s) (now e)"
  shows "run_web p es s = Inr ([], if es = [] then s else s\<lparr>processing_web := False\<rparr>)"
  using assms
proof (induction es arbitrary: s)
  case Nil
  then show ?case by simp
next
  case (Cons e es)
  have step: "process_web p e s = Inr ([], s\<lparr>processing_web := False\<rparr>)"
    using Cons.prems by (simp add: process_web_def not_connected_step_def Let_def)
  have "run_web p es (s\<lparr>processing_web := False\<rparr>) =
          Inr ([], if es = [] then s\<lparr>processing_web := False\<rparr>
                   else s\<lparr>processing_web := False, processing_web := False\<rparr>)"
    using Cons.prems by (intro Cons.IH) simp_all
  with step show ?case by simp
qed

text \<open>C7. For every call from every state: the machine enters \<open>WEB_AWAITING_CONNECTION\<close>
  (and \<open>WiFi.begin\<close> is called) only from \<open>WEB_NOT_CONNECTED\<close> and only when
  \<open>now() >= next_connect_time\<close>; every call that enters \<open>WEB_NOT_CONNECTED\<close> from another
  state has set \<open>next_connect_time = now() + CONNECT_DELAY_SECS\<close>; and in
  \<open>WEB_NOT_CONNECTED\<close>, over any sequence of calls made before the deadline, nothing is
  attempted and the state stays as it is.\<close>

theorem attempt_only_after_deadline:
  "(process_web p e s = Inr (acts, s') \<and>
      (web_status s' = WEB_AWAITING_CONNECTION \<and> web_status s \<noteq> WEB_AWAITING_CONNECTION \<or>
       Wifi_Begin \<in> set acts) \<longrightarrow>
      web_status s = WEB_NOT_CONNECTED \<and> time_le p (next_connect_time s) (now e) \<and>
      acts = [Wifi_Begin]) \<and>
   (process_web p e s = Inr (acts, s') \<and>
      web_status s' = WEB_NOT_CONNECTED \<and> web_status s \<noteq> WEB_NOT_CONNECTED \<longrightarrow>
      next_connect_time s' = now e + CONNECT_DELAY_SECS) \<and>
   (web_status s = WEB_NOT_CONNECTED \<and>
      (\<forall>e\<in>set es. \<not> time_le p (next_connect_time s) (now e)) \<longrightarrow>
      run_web p es s = Inr ([], if es = [] then s else s\<lparr>processing_web := False\<rparr>))"
  using process_web_transitions [of p e s acts s'] run_before_deadline [of s es p]
  by blast


theorem attempt_only_after_deadline_witness:
  "process_web spec_platform ((powered_env 0 None)\<lparr>now := 1000\<rparr>) initial_state
     = Inr ([Wifi_Begin],
            initial_state\<lparr>web_status := WEB_AWAITING_CONNECTION, connect_attempts := 1\<rparr>) \<and>
   time_le spec_platform (next_connect_time initial_state) (now ((powered_env 0 None)\<lparr>now := 1000\<rparr>)) \<and>
   process_web spec_platform ((powered_env 0 None)\<lparr>now := 1001, wifi_status := WL_CONNECT_FAILED\<rparr>)
       (initial_state\<lparr>web_status := WEB_AWAITING_CONNECTION, connect_attempts := 1\<rparr>)
     = Inr ([], initial_state\<lparr>connect_attempts := 1, wifi_connectfails := 1,
                               next_connect_time := 1011\<rparr>) \<and>
   run_web spec_platform
       [(powered_env 0 None)\<lparr>now := 1002\<rparr>, (powered_env 0 None)\<lparr>now := 1010\<rparr>]
       (initial_state\<lparr>connect_attempts := 1, wifi_connectfails := 1, next_connect_time := 1011\<rparr>)
     = Inr ([], initial_state\<lparr>connect_attempts := 1, wifi_connectfails := 1,
                               next_connect_time := 1011\<rparr>)"
proof -
  let ?e1 = "(powered_env 0 None)\<lparr>now := 1000\<rparr>"
  let ?s1 = "initial_state\<lparr>web_status := WEB_AWAITING_CONNECTION, connect_attempts := 1\<rparr>"
  let ?e2 = "(powered_env 0 None)\<lparr>now := 1001, wifi_status := WL_CONNECT_FAILED\<rparr>"
  let ?s2 = "initial_state\<lparr>connect_attempts := 1, wifi_connectfails := 1,
                               next_connect_time := 1011\<rparr>"
  let ?es = "[(powered_env 0 None)\<lparr>now := 1002\<rparr>, (powered_env 0 None)\<lparr>now := 1010\<rparr>]"
  have p1: "process_web spec_platform ?e1 initial_state = Inr ([Wifi_Begin], ?s1)" by code_simp
  have b: "Wifi_Begin \<in> set [Wifi_Begin]" by simp
  from attempt_only_after_deadline [of spec_platform ?e1 initial_state "[Wifi_Begin]" ?s1,
      THEN conjunct1] p1 b
  have t: "time_le spec_platform (next_connect_time initial_state) (now ?e1)" by blast
  have p2: "process_web spec_platform ?e2 ?s1 = Inr ([], ?s2)"
    and st2: "web_status ?s2 = WEB_NOT_CONNECTED \<and> web_status ?s1 \<noteq> WEB_NOT_CONNECTED"
    by code_simp+
  from attempt_only_after_deadline [of spec_platform ?e2 ?s1 "[]" ?s2,
      THEN conjunct2, THEN conjunct1] p2 st2
  have "next_connect_time ?s2 = now ?e2 + CONNECT_DELAY_SECS" by blast
  have h: "web_status ?s2 = WEB_NOT_CONNECTED \<and>
           (\<forall>e\<in>set ?es. \<not> time_le spec_platform (next_connect_time ?s2) (now e))"
    by code_simp
  have eq: "(if ?es = [] then ?s2 else ?s2\<lparr>processing_web := False\<rparr>) = ?s2" by code_simp
  from attempt_only_after_deadline [of spec_platform _ ?s2 _ _ ?es,
      THEN conjunct2, THEN conjunct2, rule_format, OF h]
  have "run_web spec_platform ?es ?s2 = Inr ([], ?s2)" unfolding eq .
  with p1 t p2 show ?thesis by blast
qed


section \<open>Visitor table: lookup, creation and eviction\<close>

lemma slot_update_distinct:
  assumes nf: "addr \<notin> ip_address ` set tab" and j: "j < length tab"
  shows "(distinct (map ip_address tab) \<longrightarrow>
            distinct (map ip_address (tab[j := \<lparr>ip_address = addr, count = 1, gave_password = False\<rparr>]))) \<and>
         (distinct (map ip_address (occupied tab)) \<longrightarrow>
            distinct (map ip_address
              (occupied (tab[j := \<lparr>ip_address = addr, count = 1, gave_password = False\<rparr>]))))"
proof -
  let ?new = "\<lparr>ip_address = addr, count = 1, gave_password = False\<rparr>"
  let ?a = "take j tab" and ?b = "drop (Suc j) tab"
  have t: "tab = ?a @ tab ! j # ?b" using j by (rule id_take_nth_drop)
  have u: "tab[j := ?new] = ?a @ ?new # ?b" using j by (rule upd_conv_take_nth_drop)
  have na: "addr \<notin> ip_address ` set ?a" and nb: "addr \<notin> ip_address ` set ?b"
    using nf by (auto dest: in_set_takeD in_set_dropD)
  have 1: "distinct (map ip_address tab) \<longrightarrow> distinct (map ip_address (tab[j := ?new]))"
  proof
    assume "distinct (map ip_address tab)"
    then have "distinct (map ip_address (?a @ tab ! j # ?b))" using t by simp
    then have "distinct (map ip_address (?a @ ?new # ?b))" using na nb by auto
    then show "distinct (map ip_address (tab[j := ?new]))" using u by simp
  qed
  have 2: "distinct (map ip_address (occupied tab)) \<longrightarrow>
           distinct (map ip_address (occupied (tab[j := ?new])))"
  proof
    assume "distinct (map ip_address (occupied tab))"
    then have "distinct (map ip_address (occupied (?a @ tab ! j # ?b)))" using t by simp
    then have "distinct (map ip_address (occupied ?a @ occupied ?b))"
      by (auto simp: occupied_def split: if_splits)
    moreover have "addr \<notin> ip_address ` set (occupied ?a)" "addr \<notin> ip_address ` set (occupied ?b)"
      using na nb by (auto simp: occupied_def)
    ultimately have "distinct (map ip_address (occupied (?a @ ?new # ?b)))"
      by (auto simp: occupied_def)
    then show "distinct (map ip_address (occupied (tab[j := ?new])))" using u by simp
  qed
  from 1 2 show ?thesis by blast
qed

text \<open>C3. What \<open>add_IP_address\<close> does, for every table of \<open>MAX_IP_ADDRESSES\<close> slots and
  every peer address. If a slot holds the address, the first such slot is returned and the
  table is unchanged. Otherwise, if a slot is empty, the last empty slot is initialised
  (\<open>count = 1\<close>, \<open>gave_password = false\<close>). Otherwise, if some count is below \<open>INT_MAX\<close>,
  the slot of minimum count (the lowest index among equals) is evicted and initialised.
  In these cases no other slot changes, and addresses that were unique stay unique.
  Otherwise (the table is full and every count is \<open>INT_MAX\<close>) no slot is selected:
  the store goes through \<open>clients[-1]\<close>, where the claim promises an eviction.\<close>

theorem add_IP_address_cases:
  assumes len: "length tab = MAX_IP_ADDRESSES"
  shows "(if addr \<in> ip_address ` set tab then
            \<exists>ndx<length tab. add_IP_address addr tab = Inr (ndx, tab) \<and>
               ip_address (tab ! ndx) = addr \<and> addr \<notin> ip_address ` set (take ndx tab)
          else if \<exists>c\<in>set tab. count c = 0 then
            \<exists>ndx. last_empty_slot tab ndx \<and>
               add_IP_address addr tab =
                 Inr (ndx, tab[ndx := \<lparr>ip_address = addr, count = 1, gave_password = False\<rparr>])
          else if \<exists>c\<in>set tab. count c <s INT_MAX then
            \<exists>ndx. min_count_slot tab ndx \<and>
               add_IP_address addr tab =
                 Inr (ndx, tab[ndx := \<lparr>ip_address = addr, count = 1, gave_password = False\<rparr>])
          else add_IP_address addr tab = Inl Out_Of_Bounds) \<and>
         (\<forall>ndx tab'. add_IP_address addr tab = Inr (ndx, tab') \<longrightarrow>
            (distinct (map ip_address tab) \<longrightarrow> distinct (map ip_address tab')) \<and>
            (distinct (map ip_address (occupied tab)) \<longrightarrow>
               distinct (map ip_address (occupied tab'))))"
proof -
  let ?new = "\<lparr>ip_address = addr, count = 1, gave_password = False\<rparr>"
  have tk: "take MAX_IP_ADDRESSES tab = tab" using len by simp
  show ?thesis
  proof (cases "addr \<in> ip_address ` set tab")
    case True
    from add_IP_address_known [of addr tab] True tk
    obtain ndx where "ndx < length tab" "add_IP_address addr tab = Inr (ndx, tab)"
      "ip_address (tab ! ndx) = addr" "addr \<notin> ip_address ` set (take ndx tab)"
      by auto
    with True show ?thesis by auto
  next
    case nf: False
    then have nf': "\<forall>c\<in>set tab. ip_address c \<noteq> addr" by auto
    from scan_clients_not_found [OF nf', of 0 "- 1" "- 1" INT_MAX]
    obtain e' m' where sc: "scan_clients addr tab 0 (- 1) (- 1) INT_MAX = Scanned e' m'"
      and E: "(\<forall>c\<in>set tab. count c \<noteq> 0) \<and> e' = - 1 \<or>
        (\<exists>pre x post. tab = pre @ x # post \<and> e' = int (0 + length pre) \<and> count x = 0 \<and>
          (\<forall>c\<in>set post. count c \<noteq> 0))"
      and M: "(\<forall>c\<in>set tab. count c \<noteq> 0 \<longrightarrow> sint INT_MAX \<le> sint (count c)) \<and> m' = - 1 \<or>
        (\<exists>pre x post. tab = pre @ x # post \<and> m' = int (0 + length pre) \<and> count x \<noteq> 0 \<and>
          sint (count x) < sint INT_MAX \<and>
          (\<forall>c\<in>set pre. count c \<noteq> 0 \<longrightarrow> sint (count x) < sint (count c)) \<and>
          (\<forall>c\<in>set post. count c \<noteq> 0 \<longrightarrow> sint (count x) \<le> sint (count c)))"
      by blast
    have main: "if \<exists>c\<in>set tab. count c = 0 then
            \<exists>ndx. last_empty_slot tab ndx \<and> add_IP_address addr tab = Inr (ndx, tab[ndx := ?new])
          else if \<exists>c\<in>set tab. count c <s INT_MAX then
            \<exists>ndx. min_count_slot tab ndx \<and> add_IP_address addr tab = Inr (ndx, tab[ndx := ?new])
          else add_IP_address addr tab = Inl Out_Of_Bounds"
    proof (cases "\<exists>c\<in>set tab. count c = 0")
      case True
      with E obtain pre x post where d: "tab = pre @ x # post" "e' = int (length pre)"
        "count x = 0" "\<forall>c\<in>set post. count c \<noteq> 0" by auto
      have l: "length pre < length tab" "tab ! length pre = x" "drop (Suc (length pre)) tab = post"
        by (simp_all add: d(1))
      have "last_empty_slot tab (length pre)"
        using l d by (simp add: last_empty_slot_def list_all_iff)
      moreover have "add_IP_address addr tab = Inr (length pre, tab[length pre := ?new])"
        using sc d(2) l(1) by (simp add: add_IP_address_def tk)
      ultimately show ?thesis using True by auto
    next
      case full: False
      then have ne: "e' = - 1" "\<forall>c\<in>set tab. count c \<noteq> 0" using E by auto
      show ?thesis
      proof (cases "\<exists>c\<in>set tab. count c <s INT_MAX")
        case True
        with ne M obtain pre x post where d: "tab = pre @ x # post" "m' = int (length pre)"
          "\<forall>c\<in>set pre. count c \<noteq> 0 \<longrightarrow> sint (count x) < sint (count c)"
          "\<forall>c\<in>set post. count c \<noteq> 0 \<longrightarrow> sint (count x) \<le> sint (count c)"
          by (auto simp: word_sless_alt)
        have l: "length pre < length tab" "tab ! length pre = x" "drop (Suc (length pre)) tab = post"
          "take (length pre) tab = pre"
          by (simp_all add: d(1))
        have s: "set pre \<subseteq> set tab" "set post \<subseteq> set tab" by (auto simp: d(1))
        have "min_count_slot tab (length pre)"
          using l d(3,4) s ne(2)
          by (auto simp: min_count_slot_def list_all_iff word_sless_alt word_sle_eq)
        moreover have "add_IP_address addr tab = Inr (length pre, tab[length pre := ?new])"
          using sc d(2) l(1) ne(1) by (simp add: add_IP_address_def tk)
        ultimately show ?thesis using True full by auto
      next
        case False
        then have "\<forall>c\<in>set tab. sint INT_MAX \<le> sint (count c)"
          by (auto simp: word_sless_alt)
        with M have "m' = - 1" by fastforce
        with sc ne(1) have "add_IP_address addr tab = Inl Out_Of_Bounds"
          by (simp add: add_IP_address_def tk)
        with False full show ?thesis by auto
      qed
    qed
    have uniq: "(distinct (map ip_address tab) \<longrightarrow> distinct (map ip_address tab')) \<and>
            (distinct (map ip_address (occupied tab)) \<longrightarrow>
               distinct (map ip_address (occupied tab')))"
      if a: "add_IP_address addr tab = Inr (ndx, tab')" for ndx tab'
    proof -
      from a sc have "ndx < length tab" "tab' = tab[ndx := ?new]"
        by (auto simp: add_IP_address_def tk Let_def split: if_splits)
      with slot_update_distinct [OF nf, of ndx] show ?thesis by simp
    qed
    from nf main uniq show ?thesis by simp
  qed
qed


theorem add_IP_address_cases_witness:
  "(\<exists>ndx. add_IP_address 7
            (map (\<lambda>i. \<lparr>ip_address = of_nat i, count = 5, gave_password = False\<rparr>) [0..<25])
          = Inr (ndx, map (\<lambda>i. \<lparr>ip_address = of_nat i, count = 5, gave_password = False\<rparr>) [0..<25])
        \<and> ndx = 7) \<and>
   (last_empty_slot (clients initial_state) 24 \<and>
    add_IP_address 7 (clients initial_state)
      = Inr (24, (clients initial_state)
                   [24 := \<lparr>ip_address = 7, count = 1, gave_password = False\<rparr>])) \<and>
   (min_count_slot
      (map (\<lambda>i. \<lparr>ip_address = of_nat i, count = (if odd i then 3 else 5), gave_password = False\<rparr>)
         [0..<25]) 1 \<and>
    add_IP_address 77
      (map (\<lambda>i. \<lparr>ip_address = of_nat i, count = (if odd i then 3 else 5), gave_password = False\<rparr>)
         [0..<25])
      = Inr (1, (map (\<lambda>i. \<lparr>ip_address = of_nat i, count = (if odd i then 3 else 5),
                              gave_password = False\<rparr>) [0..<25])
                  [1 := \<lparr>ip_address = 77, count = 1, gave_password = False\<rparr>])) \<and>
   distinct (map ip_address
      ((map (\<lambda>i. \<lparr>ip_address = of_nat i, count = (if odd i then 3 else 5),
                       gave_password = False\<rparr>) [0..<25])
         [1 := \<lparr>ip_address = 77, count = 1, gave_password = False\<rparr>])) \<and>
   add_IP_address 77
      (map (\<lambda>i. \<lparr>ip_address = of_nat i, count = INT_MAX, gave_password = True\<rparr>) [0..<25])
      = Inl Out_Of_Bounds"
proof -
  let ?new = "\<lambda>a. \<lparr>ip_address = a, count = 1, gave_password = False\<rparr>"
  let ?t1 = "map (\<lambda>i. \<lparr>ip_address = of_nat i, count = 5, gave_password = False\<rparr>) [0..<25]"
  let ?t2 = "clients initial_state"
  let ?t3 = "map (\<lambda>i. \<lparr>ip_address = of_nat i, count = (if odd i then 3 else 5),
                      gave_password = False\<rparr>) [0..<25]"
  let ?t4 = "map (\<lambda>i. \<lparr>ip_address = of_nat i, count = INT_MAX, gave_password = True\<rparr>) [0..<25]"
  have l1: "length ?t1 = MAX_IP_ADDRESSES" and l2: "length ?t2 = MAX_IP_ADDRESSES"
    and l3: "length ?t3 = MAX_IP_ADDRESSES" and l4: "length ?t4 = MAX_IP_ADDRESSES"
    by code_simp+
  have c1: "7 \<in> ip_address ` set ?t1" by code_simp
  have c2: "7 \<notin> ip_address ` set ?t2 \<and> (\<exists>c\<in>set ?t2. count c = 0)" by code_simp
  have c3: "77 \<notin> ip_address ` set ?t3 \<and> \<not> (\<exists>c\<in>set ?t3. count c = 0) \<and>
            (\<exists>c\<in>set ?t3. count c <s INT_MAX)" by code_simp
  have c4: "77 \<notin> ip_address ` set ?t4 \<and> \<not> (\<exists>c\<in>set ?t4. count c = 0) \<and>
            \<not> (\<exists>c\<in>set ?t4. count c <s INT_MAX)" by code_simp
  have v1: "add_IP_address 7 ?t1 = Inr (7, ?t1)" by code_simp
  have v2: "add_IP_address 7 ?t2 = Inr (24, ?t2[24 := ?new 7])" by code_simp
  have v3: "add_IP_address 77 ?t3 = Inr (1, ?t3[1 := ?new 77])" by code_simp
  from add_IP_address_cases [OF l1, of 7, THEN conjunct1] c1
  obtain ndx where "add_IP_address 7 ?t1 = Inr (ndx, ?t1)" by (simp only: if_True) blast
  with v1 have 1: "\<exists>ndx. add_IP_address 7 ?t1 = Inr (ndx, ?t1) \<and> ndx = 7" by simp
  from add_IP_address_cases [OF l2, of 7, THEN conjunct1] c2
  obtain n2 where "last_empty_slot ?t2 n2" "add_IP_address 7 ?t2 = Inr (n2, ?t2[n2 := ?new 7])"
    by (simp only: if_True if_False) blast
  with v2 have 2: "last_empty_slot ?t2 24" by simp
  from add_IP_address_cases [OF l3, of 77, THEN conjunct1] c3
  obtain n3 where "min_count_slot ?t3 n3" "add_IP_address 77 ?t3 = Inr (n3, ?t3[n3 := ?new 77])"
    by (simp only: if_True if_False) blast
  with v3 have 3: "min_count_slot ?t3 1" by simp
  from add_IP_address_cases [OF l4, of 77, THEN conjunct1] c4
  have 4: "add_IP_address 77 ?t4 = Inl Out_Of_Bounds"
    by (simp only: if_True if_False)
  have d3: "distinct (map ip_address ?t3)" by code_simp
  from add_IP_address_cases [OF l3, of 77, THEN conjunct2, rule_format, OF v3, THEN conjunct1] d3
  have 5: "distinct (map ip_address (?t3[1 := ?new 77]))" by (rule mp)
  from 1 2 v2 3 v3 4 5 show ?thesis by blast
qed


end
